theory Spec2Isabelle
  imports Complex_Main
begin

section \<open>Data model of the diagram's redraw\<close>

text \<open>
  The records delivered by \<open>nodeGroup().all()\<close> and \<open>edgeGroup().all()\<close> are key/value
  pairs. Only the fields that the redraw reads are kept; everything else a record carries
  is the opaque payload. A field that a JavaScript object does not have reads as
  \<open>undefined\<close>, which is \<open>None\<close> here. Keys are property names, hence strings; they are
  assumed not to be names that every JavaScript object inherits (such as \<open>constructor\<close>).
  Numbers are modelled as reals.
\<close>

type_synonym key = string
type_synonym ref = nat

record kv_node =
  nkey :: key
  nx :: "real option"
  ny :: "real option"
  nvalue :: string

record kv_edge =
  ekey :: key
  sourcename :: key
  targetname :: key
  notLayout :: bool
  evalue :: string

record coord =
  cx :: real
  cy :: real

text \<open>
  The wrapper objects kept in \<open>_nodes\<close> and \<open>_edges\<close>. A wrapper starts as the empty
  object \<open>{}\<close>. Objects have identity: a wrapper is a reference into a heap, and the maps
  \<open>_nodes\<close> and \<open>_edges\<close> hold references. An edge's \<open>source\<close> and \<open>target\<close> are
  references to node wrappers.
\<close>

record wnode =
  node_orig :: "kv_node option"
  node_index :: "nat option"
  node_x :: "real option"
  node_y :: "real option"
  node_fixed :: "bool option"

record wedge =
  edge_orig :: "kv_edge option"
  edge_source :: "ref option"
  edge_target :: "ref option"
  edge_parallel :: "nat option"

definition empty_wnode :: wnode where
  "empty_wnode = \<lparr>node_orig = None, node_index = None, node_x = None, node_y = None,
     node_fixed = None\<rparr>"

definition empty_wedge :: wedge where
  "empty_wedge = \<lparr>edge_orig = None, edge_source = None, edge_target = None,
     edge_parallel = None\<rparr>"

text \<open>
  The variables of the closure \<open>dc_graph.diagram\<close> that persist between redraws, the two
  heaps, and the two dictionaries \<open>keep_node\<close> and \<open>keep_edge\<close> that a redraw fills
  (only the value \<open>true\<close> is ever stored in them, so they are sets of keys).
\<close>

record chart =
  nodes_map :: "key \<Rightarrow> ref option"
  edges_map :: "key \<Rightarrow> ref option"
  node_heap :: "ref \<Rightarrow> wnode"
  edge_heap :: "ref \<Rightarrow> wedge"
  next_node :: ref
  next_edge :: ref
  keep_node :: "key set"
  keep_edge :: "key set"
  nodes_snapshot :: "string option"
  edges_snapshot :: "string option"
  startTime :: "int option"
  end_listener :: bool

text \<open>
  \<open>startTime\<close> is the variable of that name in the closure of the tick listener that is
  registered on the layout engine (undefined until a redraw assigns it), and
  \<open>end_listener\<close> tells whether the engine has a listener for its \<open>end\<close> event.
\<close>

text \<open>
  The properties of the chart that the redraw reads. An accessor that may be unset is an
  option; an accessor that returns a falsy value returns \<open>None\<close>. \<open>stringify_nodes\<close> and
  \<open>stringify_edges\<close> stand for \<open>JSON.stringify\<close> on an array of records.
\<close>

record config =
  nodeKeyAccessor :: "kv_node \<Rightarrow> key"
  edgeKeyAccessor :: "kv_edge \<Rightarrow> key"
  sourceAccessor :: "kv_edge \<Rightarrow> key"
  targetAccessor :: "kv_edge \<Rightarrow> key"
  nodeFixedAccessor :: "(kv_node \<Rightarrow> coord option) option"
  induceNodes :: bool
  nodeOrdering :: "(kv_node \<Rightarrow> real) option"
  edgeOrdering :: "(kv_edge \<Rightarrow> real) option"
  layoutUnchanged :: bool
  parallelEdgeOffset :: real
  edgeIsLayoutAccessor :: "kv_edge \<Rightarrow> bool"
  baseLength :: real
  timeLimit :: nat
  showLayoutSteps :: bool
  initLayoutOnRedraw :: bool
  stringify_nodes :: "kv_node option list \<Rightarrow> string"
  stringify_edges :: "kv_edge option list \<Rightarrow> string"

definition default_config :: config where
  "default_config = \<lparr>
     nodeKeyAccessor = nkey, edgeKeyAccessor = ekey,
     sourceAccessor = sourcename, targetAccessor = targetname,
     nodeFixedAccessor = None, induceNodes = False,
     nodeOrdering = None, edgeOrdering = None,
     layoutUnchanged = False, parallelEdgeOffset = 5,
     edgeIsLayoutAccessor = (\<lambda>kv. \<not> notLayout kv),
     baseLength = 30, timeLimit = 0, showLayoutSteps = True,
     initLayoutOnRedraw = False,
     stringify_nodes = (\<lambda>vs. concat (map (\<lambda>v. case v of None \<Rightarrow> ''null,''
        | Some r \<Rightarrow> nkey r @ '':'' @ nvalue r @ '','') vs)),
     stringify_edges = (\<lambda>es. concat (map (\<lambda>e. case e of None \<Rightarrow> ''null,''
        | Some r \<Rightarrow> ekey r @ '':'' @ sourcename r @ ''>'' @ targetname r @ '','') es))\<rparr>"

definition initial_chart :: chart where
  "initial_chart = \<lparr>
     nodes_map = (\<lambda>k. None), edges_map = (\<lambda>k. None),
     node_heap = (\<lambda>r. empty_wnode), edge_heap = (\<lambda>r. empty_wedge),
     next_node = 0, next_edge = 0, keep_node = {}, keep_edge = {},
     nodes_snapshot = None, edges_snapshot = None,
     startTime = None, end_listener = False\<rparr>"

section \<open>Reconciliation: \<open>wrap_node\<close>, \<open>wrap_edge\<close> and the sweep\<close>

text \<open>
  \<open>crossfilter.quicksort.by(f)(a, 0, a.length)\<close> belongs to an external library; it is
  modelled by its contract: the array sorted ascending by \<open>f\<close>.
\<close>

definition quicksort_by :: "('a \<Rightarrow> real) \<Rightarrow> 'a list \<Rightarrow> 'a list" where
  "quicksort_by f xs = sort_key f xs"

definition wrap_node :: "config \<Rightarrow> kv_node \<Rightarrow> nat \<Rightarrow> chart \<Rightarrow> ref \<times> chart" where
  "wrap_node cfg v i s =
    (let k = nodeKeyAccessor cfg v;
         (v1, s1) = (case nodes_map s k of
             None \<Rightarrow> (next_node s,
               s\<lparr>nodes_map := (nodes_map s)(k \<mapsto> next_node s),
                 node_heap := (node_heap s)(next_node s := empty_wnode),
                 next_node := Suc (next_node s)\<rparr>)
           | Some r \<Rightarrow> (r, s));
         w1 = (node_heap s1 v1)\<lparr>node_orig := Some v, node_index := Some i\<rparr>;
         fixed = (case nodeFixedAccessor cfg of None \<Rightarrow> None | Some f \<Rightarrow> f v);
         w2 = (case fixed of
             Some c \<Rightarrow> w1\<lparr>node_x := nx v, node_y := ny v, node_fixed := Some True\<rparr>
           | None \<Rightarrow> w1\<lparr>node_fixed := Some False\<rparr>)
     in (v1, s1\<lparr>node_heap := (node_heap s1)(v1 := w2),
                keep_node := insert k (keep_node s1)\<rparr>))"

definition wrap_edge :: "config \<Rightarrow> kv_edge \<Rightarrow> chart \<Rightarrow> ref \<times> chart" where
  "wrap_edge cfg e s =
    (let k = edgeKeyAccessor cfg e;
         (e1, s1) = (case edges_map s k of
             None \<Rightarrow> (next_edge s,
               s\<lparr>edges_map := (edges_map s)(k \<mapsto> next_edge s),
                 edge_heap := (edge_heap s)(next_edge s := empty_wedge),
                 next_edge := Suc (next_edge s)\<rparr>)
           | Some r \<Rightarrow> (r, s));
         w = (edge_heap s1 e1)\<lparr>edge_orig := Some e,
               edge_source := nodes_map s1 (sourceAccessor cfg e),
               edge_target := nodes_map s1 (targetAccessor cfg e)\<rparr>
     in (e1, s1\<lparr>edge_heap := (edge_heap s1)(e1 := w),
                keep_edge := insert k (keep_edge s1)\<rparr>))"

text \<open>\<open>nodes.map(wrap_node)\<close>: the callback receives the element and its index.\<close>

fun map_wrap_node :: "config \<Rightarrow> kv_node list \<Rightarrow> nat \<Rightarrow> chart \<Rightarrow> ref list \<times> chart" where
  "map_wrap_node cfg [] i s = ([], s)"
| "map_wrap_node cfg (v # vs) i s =
    (let (r, s1) = wrap_node cfg v i s;
         (rs, s2) = map_wrap_node cfg vs (Suc i) s1
     in (r # rs, s2))"

fun map_wrap_edge :: "config \<Rightarrow> kv_edge list \<Rightarrow> chart \<Rightarrow> ref list \<times> chart" where
  "map_wrap_edge cfg [] s = ([], s)"
| "map_wrap_edge cfg (e # es) s =
    (let (r, s1) = wrap_edge cfg e s;
         (rs, s2) = map_wrap_edge cfg es s1
     in (r # rs, s2))"

text \<open>
  The two \<open>for ... in\<close> loops that delete from \<open>_nodes\<close> and \<open>_edges\<close> every key that is
  not in \<open>keep_node\<close>, respectively \<open>keep_edge\<close>.
\<close>

definition sweep :: "chart \<Rightarrow> chart" where
  "sweep s = s\<lparr>nodes_map := nodes_map s |` keep_node s,
               edges_map := edges_map s |` keep_edge s\<rparr>"

text \<open>
  The first part of \<open>redraw\<close>: the optional filter of \<open>induceNodes\<close>, the optional
  orderings, then, in the order of the source, \<open>nodes.map(wrap_node)\<close>, the sweep of both
  maps, and \<open>edges.map(wrap_edge)\<close> followed by the filter that drops the edges with an
  undefined endpoint.
\<close>

definition induce :: "config \<Rightarrow> kv_node list \<Rightarrow> kv_edge list \<Rightarrow> kv_node list" where
  "induce cfg nodes edges =
    (if induceNodes cfg
     then filter (\<lambda>n. nodeKeyAccessor cfg n \<in>
            sourceAccessor cfg ` set edges \<union> targetAccessor cfg ` set edges) nodes
     else nodes)"

definition order_nodes :: "config \<Rightarrow> kv_node list \<Rightarrow> kv_node list" where
  "order_nodes cfg nodes =
    (case nodeOrdering cfg of None \<Rightarrow> nodes | Some f \<Rightarrow> quicksort_by f nodes)"

definition order_edges :: "config \<Rightarrow> kv_edge list \<Rightarrow> kv_edge list" where
  "order_edges cfg edges =
    (case edgeOrdering cfg of None \<Rightarrow> edges | Some f \<Rightarrow> quicksort_by f edges)"

definition has_endpoints :: "chart \<Rightarrow> ref \<Rightarrow> bool" where
  "has_endpoints s e =
    (edge_source (edge_heap s e) \<noteq> None \<and> edge_target (edge_heap s e) \<noteq> None)"

definition reconcile ::
  "config \<Rightarrow> kv_node list \<Rightarrow> kv_edge list \<Rightarrow> chart \<Rightarrow> (ref list \<times> ref list) \<times> chart" where
  "reconcile cfg nodes0 edges0 s =
    (let nodes = order_nodes cfg (induce cfg nodes0 edges0);
         edges = order_edges cfg edges0;
         s0 = s\<lparr>keep_node := {}, keep_edge := {}\<rparr>;
         (nodes1, s1) = map_wrap_node cfg nodes 0 s0;
         s2 = sweep s1;
         (es, s3) = map_wrap_edge cfg edges s2;
         edges1 = filter (has_endpoints s3) es
     in ((nodes1, edges1), s3))"

section \<open>Change detection and parallel edges\<close>

text \<open>
  The snapshots are taken only when \<open>layoutUnchanged\<close> is false. \<open>original\<close> reads the
  \<open>orig\<close> field of a wrapper.
\<close>

definition snapshot :: "config \<Rightarrow> ref list \<Rightarrow> ref list \<Rightarrow> chart \<Rightarrow> bool \<times> chart" where
  "snapshot cfg nodes1 edges1 s =
    (if \<not> layoutUnchanged cfg then
       (let nodes_snap = stringify_nodes cfg (map (\<lambda>r. node_orig (node_heap s r)) nodes1);
            edges_snap = stringify_edges cfg (map (\<lambda>r. edge_orig (edge_heap s r)) edges1)
        in (Some nodes_snap = nodes_snapshot s \<and> Some edges_snap = edges_snapshot s,
            s\<lparr>nodes_snapshot := Some nodes_snap, edges_snapshot := Some edges_snap\<rparr>))
     else (False, s))"

datatype error = TypeError

text \<open>
  The matrix \<open>em\<close> of counters, \<open>nodes1.length\<close> rows of as many zeros, and the statement
  \<open>e.parallel = em[min][max]++\<close>. An index outside the matrix cannot come from a wrapper;
  there the source fails on the missing row or computes with \<open>undefined\<close>, and both
  are the error here. So is an endpoint or an index that is \<open>undefined\<close>.
\<close>

definition em_init :: "nat \<Rightarrow> nat list list" where
  "em_init n = replicate n (replicate n 0)"

definition bump_em :: "nat list list \<Rightarrow> nat \<Rightarrow> nat \<Rightarrow> error + nat \<times> nat list list" where
  "bump_em em mn mx =
    (if mn < length em \<and> mx < length (em ! mn)
     then Inr (em ! mn ! mx, em[mn := (em ! mn)[mx := Suc (em ! mn ! mx)]])
     else Inl TypeError)"

definition endpoint_indices :: "chart \<Rightarrow> ref \<Rightarrow> (nat \<times> nat) option" where
  "endpoint_indices s e =
    (case (edge_source (edge_heap s e), edge_target (edge_heap s e)) of
       (Some a, Some b) \<Rightarrow>
         (case (node_index (node_heap s a), node_index (node_heap s b)) of
            (Some i, Some j) \<Rightarrow> Some (i, j)
          | _ \<Rightarrow> None)
     | _ \<Rightarrow> None)"

fun mark_parallel :: "ref list \<Rightarrow> nat list list \<Rightarrow> chart \<Rightarrow> error + chart" where
  "mark_parallel [] em s = Inr s"
| "mark_parallel (e # es) em s =
    (case endpoint_indices s e of
       None \<Rightarrow> Inl TypeError
     | Some (i, j) \<Rightarrow>
         (case bump_em em (min i j) (max i j) of
            Inl err \<Rightarrow> Inl err
          | Inr (p, em') \<Rightarrow>
              mark_parallel es em'
                (s\<lparr>edge_heap := (edge_heap s)(e := (edge_heap s e)\<lparr>edge_parallel := Some p\<rparr>)\<rparr>)))"

section \<open>Constraints\<close>

text \<open>
  A constraint is an object that \<open>redraw\<close> tells apart by its \<open>type\<close> field and, when it
  has none, by a truthy \<open>axis\<close>: \<open>Gap\<close> is an object without \<open>type\<close> and with an axis,
  \<open>Other\<close> any object that the translation leaves alone. What \<open>constrain\<close> returns names
  nodes by key; the translation overwrites each key with the \<open>index\<close> of the node's
  wrapper. The type parameter is what names a node.
\<close>

datatype 'n constraint =
    Alignment string "('n \<times> real) list"
  | Circle "'n list" "real option"
  | Ordering string real "key list" "kv_node \<Rightarrow> real"
  | Gap string 'n 'n real
  | Other string

record internal_edge =
  ie_sourcename :: key
  ie_targetname :: key
  ie_distance :: real

text \<open>
  A link handed to the layout engine is a wrapper of \<open>edges1\<close> or an object
  \<open>{internal: e, source: ..., target: ...}\<close> made for a circle constraint.
\<close>

datatype link = EdgeLink ref | WheelLink internal_edge "ref option" "ref option"

text \<open>
  \<open>constrain\<close> is the chart's function of that name, called with the current wrappers.
  \<open>dc_graph.wheel_edges\<close> is defined outside the sources at hand and is a parameter; its
  third argument is the radius, \<open>None\<close> where the source computes a radius that is not the
  value of its formula over the reals (see \<open>ring_radius\<close>).
\<close>

record hooks =
  constrain :: "ref list \<Rightarrow> ref list \<Rightarrow> chart \<Rightarrow> key constraint list"
  wheel_edges :: "(nat \<Rightarrow> key) \<Rightarrow> nat list \<Rightarrow> real option \<Rightarrow> internal_edge list"

fun collect :: "(error + 'a) list \<Rightarrow> error + 'a list" where
  "collect [] = Inr []"
| "collect (x # xs) =
    (case x of
       Inl e \<Rightarrow> Inl e
     | Inr v \<Rightarrow> (case collect xs of Inl e \<Rightarrow> Inl e | Inr vs \<Rightarrow> Inr (v # vs)))"

text \<open>
  \<open>_nodes[k].index\<close>: a key without a wrapper makes the source read a property of
  \<open>undefined\<close>. Every wrapper in \<open>_nodes\<close> has been given its index by \<open>wrap_node\<close>; a
  wrapper without one is closed with the error as well.
\<close>

definition index_of :: "chart \<Rightarrow> ref \<Rightarrow> error + nat" where
  "index_of s r = (case node_index (node_heap s r) of None \<Rightarrow> Inl TypeError | Some i \<Rightarrow> Inr i)"

definition node_index_of :: "chart \<Rightarrow> key \<Rightarrow> error + nat" where
  "node_index_of s k = (case nodes_map s k of None \<Rightarrow> Inl TypeError | Some r \<Rightarrow> index_of s r)"

fun translate_constraint :: "chart \<Rightarrow> key constraint \<Rightarrow> error + nat constraint" where
  "translate_constraint s (Alignment ax offsets) =
    (case collect (map (\<lambda>(k, off). case node_index_of s k of
                                     Inl e \<Rightarrow> Inl e | Inr i \<Rightarrow> Inr (i, off)) offsets) of
       Inl e \<Rightarrow> Inl e
     | Inr os \<Rightarrow> Inr (Alignment ax os))"
| "translate_constraint s (Circle ns d) =
    (case collect (map (node_index_of s) ns) of
       Inl e \<Rightarrow> Inl e
     | Inr is \<Rightarrow> Inr (Circle is d))"
| "translate_constraint s (Ordering ax g ks f) = Inr (Ordering ax g ks f)"
| "translate_constraint s (Gap ax l r g) =
    (case node_index_of s l of
       Inl e \<Rightarrow> Inl e
     | Inr i \<Rightarrow> (case node_index_of s r of Inl e \<Rightarrow> Inl e | Inr j \<Rightarrow> Inr (Gap ax i j g)))"
| "translate_constraint s (Other t) = Inr (Other t)"

definition translate_constraints :: "chart \<Rightarrow> key constraint list \<Rightarrow> error + nat constraint list" where
  "translate_constraints s cs = collect (map (translate_constraint s) cs)"

fun is_circle :: "'n constraint \<Rightarrow> bool" where
  "is_circle (Circle ns d) = True"
| "is_circle c = False"

fun is_ordering :: "'n constraint \<Rightarrow> bool" where
  "is_ordering (Ordering ax g ks f) = True"
| "is_ordering c = False"

text \<open>
  The radius of a circle constraint: \<open>(c.distance || baseLength*4) / (2*sin(PI/n))\<close>. The
  operator \<open>||\<close> takes its right operand when the distance is missing and when it is 0.
  With two nodes or more the divisor is positive and the radius is this quotient. With
  one node the source divides by the floating-point value of \<open>2*Math.sin(Math.PI)\<close>,
  which is not 0 but about \<open>2.4e-16\<close>, and with no node by \<open>NaN\<close>: what it computes
  there (about \<open>4.9e17\<close> for the default, and \<open>NaN\<close>) is no quotient of reals, and the
  radius is \<open>None\<close>.
\<close>

definition ring_radius :: "config \<Rightarrow> real option \<Rightarrow> nat \<Rightarrow> real option" where
  "ring_radius cfg distance n =
    (if n < 2 then None
     else Some ((case distance of
                   None \<Rightarrow> baseLength cfg * 4
                 | Some d \<Rightarrow> if d \<noteq> 0 then d else baseLength cfg * 4) /
                (2 * sin (pi / real n))))"

text \<open>
  \<open>namef\<close> names the node at a position of \<open>nodes1\<close>. The indices of a translated circle
  constraint are such positions; at any other number the source would fail inside the
  callback, and \<open>namef\<close> is given the empty name there.
\<close>

definition namef :: "config \<Rightarrow> ref list \<Rightarrow> chart \<Rightarrow> nat \<Rightarrow> key" where
  "namef cfg nodes1 s i =
    (if i < length nodes1
     then (case node_orig (node_heap s (nodes1 ! i)) of
             Some v \<Rightarrow> nodeKeyAccessor cfg v | None \<Rightarrow> [])
     else [])"

fun wheel :: "hooks \<Rightarrow> config \<Rightarrow> ref list \<Rightarrow> chart \<Rightarrow> nat constraint \<Rightarrow> link list" where
  "wheel h cfg nodes1 s (Circle nindices d) =
    map (\<lambda>e. WheelLink e (nodes_map s (ie_sourcename e)) (nodes_map s (ie_targetname e)))
      (wheel_edges h (namef cfg nodes1 s) nindices (ring_radius cfg d (length nindices)))"
| "wheel h cfg nodes1 s c = []"

text \<open>
  An ordering constraint: the wrappers of the named nodes are sorted by the ordering
  applied to their \<open>orig\<close>, and \<open>forEach\<close> pushes one gap constraint for every element but
  the first, between the element before it and itself. The sort reads its key only when
  there are two elements or more; a name without a wrapper then makes it fail. A wrapper
  in \<open>_nodes\<close> always has its \<open>orig\<close>; the key 0 for a wrapper without one is there to
  make \<open>order_key\<close> total and is never taken in a redraw.
\<close>

definition order_key :: "chart \<Rightarrow> (kv_node \<Rightarrow> real) \<Rightarrow> ref \<Rightarrow> real" where
  "order_key s f r = (case node_orig (node_heap s r) of Some v \<Rightarrow> f v | None \<Rightarrow> 0)"

fun gap_chain :: "chart \<Rightarrow> string \<Rightarrow> real \<Rightarrow> ref \<Rightarrow> ref list \<Rightarrow> error + nat constraint list" where
  "gap_chain s ax g left [] = Inr []"
| "gap_chain s ax g left (n # ns) =
    (case index_of s left of
       Inl e \<Rightarrow> Inl e
     | Inr l \<Rightarrow>
        (case index_of s n of
           Inl e \<Rightarrow> Inl e
         | Inr r \<Rightarrow>
            (case gap_chain s ax g n ns of
               Inl e \<Rightarrow> Inl e
             | Inr cs \<Rightarrow> Inr (Gap ax l r g # cs))))"

fun ordering_gaps :: "chart \<Rightarrow> nat constraint \<Rightarrow> error + nat constraint list" where
  "ordering_gaps s (Ordering ax g ks f) =
    (if length ks < 2 then Inr []
     else (case those (map (nodes_map s) ks) of
             None \<Rightarrow> Inl TypeError
           | Some rs \<Rightarrow>
              (case quicksort_by (order_key s f) rs of
                 [] \<Rightarrow> Inr []
               | n # ns \<Rightarrow> gap_chain s ax g n ns)))"
| "ordering_gaps s c = Inr []"

text \<open>
  The translation of what \<open>constrain\<close> returned into the links and the constraints for
  the engine: the layout edges, then the wheel links of every circle constraint; the
  constraints that are neither circle nor ordering, then the gap constraints of every
  ordering constraint. The accessors are applied to the \<open>orig\<close> of a wrapper, which
  every wrapper of \<open>nodes1\<close> and \<open>edges1\<close> has; the cases without one in \<open>is_layout\<close>
  and \<open>namef\<close> are there to make the functions total.
\<close>

definition is_layout :: "config \<Rightarrow> chart \<Rightarrow> ref \<Rightarrow> bool" where
  "is_layout cfg s e =
    (case edge_orig (edge_heap s e) of Some kv \<Rightarrow> edgeIsLayoutAccessor cfg kv | None \<Rightarrow> False)"

definition engine_input ::
  "hooks \<Rightarrow> config \<Rightarrow> ref list \<Rightarrow> ref list \<Rightarrow> chart \<Rightarrow> error + link list \<times> nat constraint list" where
  "engine_input h cfg nodes1 edges1 s =
    (case translate_constraints s (constrain h nodes1 edges1 s) of
       Inl e \<Rightarrow> Inl e
     | Inr constraints \<Rightarrow>
        (let layout_edges = map EdgeLink (filter (is_layout cfg s) edges1);
             circle_constraints = filter is_circle constraints;
             constraints1 = filter (\<lambda>c. \<not> is_circle c) constraints;
             layout_edges1 = layout_edges @ concat (map (wheel h cfg nodes1 s) circle_constraints);
             ordered_constraints = filter is_ordering constraints1;
             constraints2 = filter (\<lambda>c. \<not> is_ordering c) constraints1
         in (case collect (map (ordering_gaps s) ordered_constraints) of
               Inl e \<Rightarrow> Inl e
             | Inr gaps \<Rightarrow> Inr (layout_edges1, constraints2 @ concat gaps))))"

section \<open>The redraw and the listeners of the layout engine\<close>

text \<open>
  What a redraw and the listeners do to their surroundings, in the order it is done; the
  drawing itself (the selections, the SVG elements, the sizes that \<open>_buildNode\<close> stores in
  a wrapper) is one effect.
\<close>

datatype effect =
    EngineStop
  | InitLayout
  | EngineStart "ref list" "link list" "nat constraint list"
  | Draw
  | ConsoleLog string
  | DispatchEnd

text \<open>
  \<open>redraw\<close>, once \<open>render\<close> has made the layout engine. \<open>now\<close> is what \<open>Date.now()\<close>
  returns. \<open>initLayout\<close> makes a new engine, which has no listener. A failure leaves the
  redraw without a result.
\<close>

definition redraw ::
  "hooks \<Rightarrow> config \<Rightarrow> int \<Rightarrow> kv_node list \<Rightarrow> kv_edge list \<Rightarrow> chart \<Rightarrow> error + effect list \<times> chart" where
  "redraw h cfg now nodes edges s =
    (let init = (if initLayoutOnRedraw cfg then [InitLayout] else []);
         s0 = (if initLayoutOnRedraw cfg then s\<lparr>end_listener := False\<rparr> else s);
         ((nodes1, edges1), s1) = reconcile cfg nodes edges s0;
         (skip_layout, s2) = snapshot cfg nodes1 edges1 s1
     in (case (if parallelEdgeOffset cfg \<noteq> 0
               then mark_parallel edges1 (em_init (length nodes1)) s2 else Inr s2) of
           Inl e \<Rightarrow> Inl e
         | Inr s3 \<Rightarrow>
            (case engine_input h cfg nodes1 edges1 s3 of
               Inl e \<Rightarrow> Inl e
             | Inr (layout_edges, constraints) \<Rightarrow>
                (if skip_layout
                 then Inr (EngineStop # init @ [DispatchEnd], s3\<lparr>startTime := None\<rparr>)
                 else Inr (EngineStop # init @ [EngineStart nodes1 layout_edges constraints],
                           s3\<lparr>startTime := Some now, end_listener := True\<rparr>)))))"

text \<open>
  The listeners. The tick listener compares the time since \<open>startTime\<close> with the time
  limit (an undefined \<open>startTime\<close> makes the difference \<open>NaN\<close> and the comparison false);
  the listener of \<open>end\<close> is the one that the last redraw to start the engine has left.
\<close>

datatype engine_event = Tick int | End

definition on_tick :: "config \<Rightarrow> chart \<Rightarrow> int \<Rightarrow> effect list" where
  "on_tick cfg s now =
    (if showLayoutSteps cfg then [Draw] else []) @
    (case startTime s of
       None \<Rightarrow> []
     | Some t0 \<Rightarrow>
         if timeLimit cfg \<noteq> 0 \<and> now - t0 > int (timeLimit cfg)
         then [ConsoleLog ''cancelled'', EngineStop, DispatchEnd] else [])"

definition on_end :: "config \<Rightarrow> chart \<Rightarrow> effect list" where
  "on_end cfg s =
    (if end_listener s
     then (if \<not> showLayoutSteps cfg then [Draw] else []) @ [DispatchEnd]
     else [])"

fun listen :: "config \<Rightarrow> chart \<Rightarrow> engine_event \<Rightarrow> effect list" where
  "listen cfg s (Tick now) = on_tick cfg s now"
| "listen cfg s End = on_end cfg s"

definition deliver :: "config \<Rightarrow> chart \<Rightarrow> engine_event list \<Rightarrow> effect list" where
  "deliver cfg s evs = concat (map (listen cfg s) evs)"

definition dispatched :: "effect list \<Rightarrow> nat" where
  "dispatched effs = length (filter (\<lambda>e. e = DispatchEnd) effs)"

text \<open>
  The layout engine is outside the sources. It is given the wrappers themselves, and
  what it does to one while it runs is to write a position into its \<open>x\<close> and \<open>y\<close>.
\<close>

definition engine_moves :: "ref \<Rightarrow> real \<Rightarrow> real \<Rightarrow> chart \<Rightarrow> chart" where
  "engine_moves r px py s =
     s\<lparr>node_heap := (node_heap s)(r := (node_heap s r)\<lparr>node_x := Some px, node_y := Some py\<rparr>)\<rparr>"

section \<open>Port placement\<close>

text \<open>
  \<open>dc_graph.place_ports\<close> works on wrappers that keep their position in a \<open>cola\<close> object.
  A node is a reference (\<open>vec\<close> compares \<open>e.source\<close> with the node by identity) and
  \<open>cola\<close> gives the position of each. A port holds its edges, its direction \<open>theta\<close>, the
  field \<open>vec\<close>, which \<open>place_ports\<close> sets to a vector or to a number, and its bounds.
\<close>

record pedge =
  pe_source :: ref
  pe_target :: ref

datatype vec_or_angle = Vector real real | Angle real

record port =
  port_orig :: "string option"
  port_edges :: "pedge list"
  port_theta :: "real option"
  port_vec :: "vec_or_angle option"
  port_bounds :: "(real \<times> real) option"

text \<open>
  What \<open>place_ports\<close> takes from outside: the positions, the accessor \<open>portBounds\<close>, the
  draws of \<open>Math.random()\<close>, and the three functions on angles \<open>normalize_angle\<close>,
  \<open>normalize_angle_delta\<close> and \<open>between_angles\<close>, which are defined outside the sources
  at hand.
\<close>

record angles =
  cola :: "ref \<Rightarrow> real \<times> real"
  portBounds :: "port \<Rightarrow> (real \<times> real) option"
  random :: "nat \<Rightarrow> real"
  norm_angle :: "real \<Rightarrow> real"
  norm_angle_delta :: "real \<Rightarrow> real"
  between_angles :: "real \<Rightarrow> real \<Rightarrow> real \<Rightarrow> bool"

text \<open>
  \<open>norm\<close> (here \<open>norm_vec\<close>) divides by the length of the vector. A vector of length 0 gives
  \<open>{dx: NaN, dy: NaN}\<close>, which is \<open>None\<close> here; \<open>d3.sum\<close> leaves out the values that are
  \<open>NaN\<close>.
\<close>

definition norm_vec :: "real \<times> real \<Rightarrow> (real \<times> real) option" where
  "norm_vec v =
    (let c = sqrt ((fst v)\<^sup>2 + (snd v)\<^sup>2)
     in if c = 0 then None else Some (fst v / c, snd v / c))"

definition vec :: "angles \<Rightarrow> ref \<Rightarrow> pedge \<Rightarrow> (real \<times> real) option" where
  "vec a n e =
    (let dy = snd (cola a (pe_target e)) - snd (cola a (pe_source e));
         dx = fst (cola a (pe_target e)) - fst (cola a (pe_source e))
     in if pe_source e \<noteq> n then norm_vec (- dx, - dy) else norm_vec (dx, dy))"

definition d3_sum :: "('a \<Rightarrow> real) \<Rightarrow> 'a option list \<Rightarrow> real" where
  "d3_sum f xs = sum_list (map f (List.map_filter (\<lambda>x. x) xs))"

definition clip_angle :: "angles \<Rightarrow> real \<Rightarrow> real \<Rightarrow> real \<Rightarrow> real" where
  "clip_angle a theta lo hi =
    (if \<bar>norm_angle a (theta - lo)\<bar> < \<bar>norm_angle a (theta - hi)\<bar> then lo else hi)"

text \<open>
  The first loop over the ports of a node \<open>n\<close>: the field \<open>vec\<close> and the bounds. With
  edges, \<open>vec\<close> is the mean of their unit vectors; without, it is \<open>p.theta || undefined\<close>.
  Only a port with a record of its own is asked for bounds.
\<close>

definition assign_vec :: "angles \<Rightarrow> ref \<Rightarrow> port \<Rightarrow> port" where
  "assign_vec a n p =
    (let angs = map (vec a n) (port_edges p);
         p1 = p\<lparr>port_vec :=
                 (if angs \<noteq> []
                  then Some (Vector (d3_sum fst angs / real (length angs))
                                    (d3_sum snd angs / real (length angs)))
                  else (case port_theta p of
                          None \<Rightarrow> None
                        | Some t \<Rightarrow> if t \<noteq> 0 then Some (Angle t) else None))\<rparr>
     in (case port_orig p of
           None \<Rightarrow> p1
         | Some orig \<Rightarrow>
            (case portBounds a p1 of
               None \<Rightarrow> p1
             | Some (lo, hi) \<Rightarrow> p1\<lparr>port_bounds := Some (norm_angle a lo, norm_angle a hi)\<rparr>)))"

text \<open>The second loop sorts every port into one of the three lists.\<close>

datatype placement = Inside | Outside | Unplaced

definition classify :: "angles \<Rightarrow> port \<Rightarrow> placement" where
  "classify a p =
    (case port_theta p of
       None \<Rightarrow> Unplaced
     | Some theta \<Rightarrow>
        (case port_bounds p of
           None \<Rightarrow> Inside
         | Some (lo, hi) \<Rightarrow> if \<not> between_angles a theta lo hi then Outside else Inside))"

text \<open>
  An outside port is clipped and pushed on \<open>inside\<close>. An outside port has bounds; the
  case without is there to make the function total.
\<close>

definition clip_port :: "angles \<Rightarrow> port \<Rightarrow> port" where
  "clip_port a p =
    (case (port_theta p, port_bounds p) of
       (Some theta, Some (lo, hi)) \<Rightarrow> p\<lparr>port_theta := Some (clip_angle a theta lo hi)\<rparr>
     | _ \<Rightarrow> p)"

text \<open>An unplaced port takes a random direction within its bounds or the full circle.\<close>

definition random_port :: "angles \<Rightarrow> real \<Rightarrow> port \<Rightarrow> port" where
  "random_port a r p =
    (let (low, high) = (case port_bounds p of Some (lo, hi) \<Rightarrow> (lo, hi) | None \<Rightarrow> (- pi, pi))
     in p\<lparr>port_theta := Some (norm_angle a (low + r * norm_angle_delta a (high - low)))\<rparr>)"

text \<open>
  The body of the loop over the nodes, for the node \<open>n\<close> and its ports: the ports that
  end up in \<open>inside\<close>, in the order of the pushes, and the unplaced ports with their random
  directions. The sort of \<open>inside\<close> by \<open>theta\<close> changes no port and its result is not
  read again; the positions on the shape of the node are not modelled.
\<close>

record placed =
  inside :: "port list"
  unplaced :: "port list"

definition place_node_ports :: "angles \<Rightarrow> ref \<Rightarrow> port list \<Rightarrow> placed" where
  "place_node_ports a n nports =
    (let ps = map (assign_vec a n) nports;
         inside0 = filter (\<lambda>p. classify a p = Inside) ps;
         outside = filter (\<lambda>p. classify a p = Outside) ps;
         unplaced0 = filter (\<lambda>p. classify a p = Unplaced) ps
     in \<lparr>inside = inside0 @ map (clip_port a) outside,
         unplaced = map (\<lambda>(i, p). random_port a (random a i) p) (enumerate 0 unplaced0)\<rparr>)"

text \<open>
  Modelled from the spec: \<open>normalize_angle\<close> is not among the sources at hand. The spec
  has the canonical normalization of an angle to the interval from \<open>-\<pi>\<close> (excluded) to
  \<open>\<pi>\<close> (included).
\<close>

definition normalize_angle :: "real \<Rightarrow> real" where
  "normalize_angle theta = theta - 2 * pi * of_int \<lceil>(theta - pi) / (2 * pi)\<rceil>"

section \<open>Notions used in the statements\<close>

text \<open>
  What \<open>wrap_node\<close> computes into its variable \<open>fixed\<close>; the state in which the
  reconciliation starts, after \<open>initLayout\<close> when \<open>initLayoutOnRedraw\<close> is set; and a
  matrix of counters with \<open>n\<close> rows of length \<open>n\<close>.
\<close>

definition fixed_of :: "config \<Rightarrow> kv_node \<Rightarrow> coord option" where
  "fixed_of cfg v = (case nodeFixedAccessor cfg of None \<Rightarrow> None | Some f \<Rightarrow> f v)"

definition pre_redraw :: "config \<Rightarrow> chart \<Rightarrow> chart" where
  "pre_redraw cfg s = (if initLayoutOnRedraw cfg then s\<lparr>end_listener := False\<rparr> else s)"

definition em_ok :: "nat \<Rightarrow> nat list list \<Rightarrow> bool" where
  "em_ok n em \<longleftrightarrow> length em = n \<and> (\<forall>row\<in>set em. length row = n)"

text \<open>
  The ring radius in the spec's words, \<open>(distance ?? 4 \<times> baseLength) / (2 sin(\<pi> / n))\<close>:
  the default is taken only when the distance is absent. It is compared with
  \<open>ring_radius\<close>, which follows the source.
\<close>

definition spec_ring_radius :: "config \<Rightarrow> real option \<Rightarrow> nat \<Rightarrow> real" where
  "spec_ring_radius cfg distance n =
    (case distance of None \<Rightarrow> 4 * baseLength cfg | Some d \<Rightarrow> d) / (2 * sin (pi / real n))"

text \<open>
  The cell of the matrix that \<open>redraw\<close> counts an edge in: the smaller and the larger of
  the indices of its two endpoints.
\<close>

definition pair_key :: "chart \<Rightarrow> ref \<Rightarrow> (nat \<times> nat) option" where
  "pair_key s e = map_option (\<lambda>(i, j). (min i j, max i j)) (endpoint_indices s e)"

text \<open>
  A map of edge wrappers in which different keys have different wrappers, all of them
  allocated; the last record of a list that has the key of a given record; the two
  strings that a redraw from a given state compares and stores as snapshots; and a tick
  of the engine at which the tick listener finds the time limit exceeded.
\<close>

definition edges_inj :: "chart \<Rightarrow> bool" where
  "edges_inj s \<longleftrightarrow> (\<forall>k r. edges_map s k = Some r \<longrightarrow> r < next_edge s) \<and>
     (\<forall>k k' r. edges_map s k = Some r \<and> edges_map s k' = Some r \<longrightarrow> k = k')"

definition last_with :: "('a \<Rightarrow> key) \<Rightarrow> 'a list \<Rightarrow> 'a \<Rightarrow> 'a" where
  "last_with k xs x = last (filter (\<lambda>u. k u = k x) xs)"

definition taken_nodes :: "config \<Rightarrow> kv_node list \<Rightarrow> kv_edge list \<Rightarrow> chart \<Rightarrow> string" where
  "taken_nodes cfg nodes edges s =
     (let ((nodes1, edges1), s1) = reconcile cfg nodes edges (pre_redraw cfg s)
      in stringify_nodes cfg (map (\<lambda>r. node_orig (node_heap s1 r)) nodes1))"

definition taken_edges :: "config \<Rightarrow> kv_node list \<Rightarrow> kv_edge list \<Rightarrow> chart \<Rightarrow> string" where
  "taken_edges cfg nodes edges s =
     (let ((nodes1, edges1), s1) = reconcile cfg nodes edges (pre_redraw cfg s)
      in stringify_edges cfg (map (\<lambda>r. edge_orig (edge_heap s1 r)) edges1))"

definition over_limit :: "config \<Rightarrow> chart \<Rightarrow> engine_event \<Rightarrow> bool" where
  "over_limit cfg s ev =
     (case ev of
        End \<Rightarrow> False
      | Tick now \<Rightarrow>
          (case startTime s of
             None \<Rightarrow> False
           | Some t0 \<Rightarrow> timeLimit cfg \<noteq> 0 \<and> now - t0 > int (timeLimit cfg)))"

section \<open>Example inputs\<close>

text \<open>
  Hooks without constraints, two nodes and an edge between them, and a chart whose
  \<open>nodeFixedAccessor\<close> returns a coordinate for the records with the payload \<open>pin\<close>.
\<close>

definition no_hooks :: hooks where
  "no_hooks = \<lparr>constrain = (\<lambda>ns es s. []), wheel_edges = (\<lambda>f is R. [])\<rparr>"

definition node_a :: kv_node where
  "node_a = \<lparr>nkey = ''a'', nx = None, ny = None, nvalue = ''''\<rparr>"

definition node_b :: kv_node where
  "node_b = \<lparr>nkey = ''b'', nx = None, ny = None, nvalue = ''''\<rparr>"

definition edge_ab :: kv_edge where
  "edge_ab = \<lparr>ekey = ''e'', sourcename = ''a'', targetname = ''b'', notLayout = False, evalue = ''''\<rparr>"

definition fixing_config :: config where
  "fixing_config = default_config\<lparr>nodeFixedAccessor :=
     Some (\<lambda>v. if nvalue v = ''pin'' then Some \<lparr>cx = 10, cy = 20\<rparr> else None)\<rparr>"

definition node_pin :: kv_node where
  "node_pin = \<lparr>nkey = ''p'', nx = None, ny = None, nvalue = ''pin''\<rparr>"

text \<open>
  For the port placement: two nodes at \<open>(0, 0)\<close> and \<open>(3, 4)\<close>, bounds from 0 to
  \<open>\<pi>/2\<close> for every port that is asked for them, a fourth as every random draw, and
  closed intervals for \<open>between_angles\<close>. The port \<open>west\<close> points at \<open>\<pi>\<close> and has no
  edge; the port \<open>east\<close> has no direction and one edge, from the node 0 to the node 1.
\<close>

definition example_angles :: angles where
  "example_angles = \<lparr>
     cola = (\<lambda>r. if r = 0 then (0, 0) else (3, 4)),
     portBounds = (\<lambda>p. Some (0, pi / 2)),
     random = (\<lambda>i. 1 / 4),
     norm_angle = normalize_angle,
     norm_angle_delta = (\<lambda>d. d),
     between_angles = (\<lambda>theta lo hi. lo \<le> theta \<and> theta \<le> hi)\<rparr>"

definition port_west :: port where
  "port_west = \<lparr>port_orig = Some ''west'', port_edges = [], port_theta = Some pi,
     port_vec = None, port_bounds = None\<rparr>"

definition port_east :: port where
  "port_east = \<lparr>port_orig = None, port_edges = [\<lparr>pe_source = 0, pe_target = 1\<rparr>],
     port_theta = None, port_vec = None, port_bounds = None\<rparr>"

text \<open>
  For the constraints: two more nodes; a chart whose \<open>_nodes\<close> already holds a wrapper
  for \<open>d\<close>, so that a redraw of \<open>a\<close>, \<open>b\<close>, \<open>c\<close>, \<open>d\<close> gives \<open>d\<close> the wrapper 0 and the
  index 3; two orderings of the nodes, \<open>rank\<close> with \<open>a\<close> before \<open>b\<close> before the rest and
  \<open>depth\<close> with \<open>d\<close> before \<open>b\<close> before \<open>a\<close> before \<open>c\<close>; hooks that return an ordering
  constraint over \<open>c\<close>, \<open>a\<close>, \<open>b\<close> by \<open>rank\<close> and one over \<open>a\<close>, \<open>b\<close>, \<open>c\<close>, \<open>d\<close> by
  \<open>depth\<close>.
\<close>

definition node_c :: kv_node where
  "node_c = \<lparr>nkey = ''c'', nx = None, ny = None, nvalue = ''''\<rparr>"

definition node_d :: kv_node where
  "node_d = \<lparr>nkey = ''d'', nx = None, ny = None, nvalue = ''''\<rparr>"

definition chart_d :: chart where
  "chart_d = snd (reconcile default_config [node_d] [] initial_chart)"

definition rank :: "kv_node \<Rightarrow> real" where
  "rank v = (if nkey v = ''a'' then 1 else if nkey v = ''b'' then 2 else 3)"

definition depth :: "kv_node \<Rightarrow> real" where
  "depth v = (if nkey v = ''d'' then 1 else if nkey v = ''b'' then 2
              else if nkey v = ''a'' then 3 else 4)"


text \<open>
  A \<open>wheel_edges\<close> that links every index to the next one around the ring and gives
  each link the radius as its distance; hooks that return one circle constraint over the
  four nodes, without a distance and with the distance 0; and an edge from \<open>a\<close> to \<open>b\<close>
  that is not a layout edge.
\<close>

definition rim :: "(nat \<Rightarrow> key) \<Rightarrow> nat list \<Rightarrow> real option \<Rightarrow> internal_edge list" where
  "rim f is R =
     (case R of
        None \<Rightarrow> []
      | Some d \<Rightarrow> map (\<lambda>(i, j). \<lparr>ie_sourcename = f i, ie_targetname = f j, ie_distance = d\<rparr>)
                    (zip is (rotate1 is)))"

definition circle_hooks :: hooks where
  "circle_hooks = \<lparr>constrain = (\<lambda>ns es s. [Circle [''a'', ''b'', ''c'', ''d''] None]),
     wheel_edges = rim\<rparr>"

definition zero_circle_hooks :: hooks where
  "zero_circle_hooks = \<lparr>constrain = (\<lambda>ns es s. [Circle [''a'', ''b'', ''c'', ''d''] (Some 0)]),
     wheel_edges = rim\<rparr>"

definition edge_ab_loose :: kv_edge where
  "edge_ab_loose = \<lparr>ekey = ''g'', sourcename = ''a'', targetname = ''b'', notLayout = True, evalue = ''''\<rparr>"

text \<open>
  For the parallel edges: a second edge from \<open>a\<close> to \<open>b\<close>, an edge from \<open>b\<close> to \<open>c\<close>,
  and the chart after the reconciliation of the three nodes and the three edges.
\<close>

definition edge_ab2 :: kv_edge where
  "edge_ab2 = \<lparr>ekey = ''e2'', sourcename = ''a'', targetname = ''b'', notLayout = False, evalue = ''''\<rparr>"

definition edge_bc :: kv_edge where
  "edge_bc = \<lparr>ekey = ''f'', sourcename = ''b'', targetname = ''c'', notLayout = False, evalue = ''''\<rparr>"

definition chart_abc :: chart where
  "chart_abc = snd (reconcile default_config [node_a, node_b, node_c] [edge_ab, edge_ab2, edge_bc]
     (pre_redraw default_config initial_chart))"

text \<open>A chart with a time limit of 500 milliseconds.\<close>

definition limited_config :: config where
  "limited_config = default_config\<lparr>timeLimit := 500\<rparr>"

section \<open>Lemmas about the reconciliation\<close>

lemma wrap_node_frame [simp]:
  "edges_map (snd (wrap_node cfg v i s)) = edges_map s"
  "edge_heap (snd (wrap_node cfg v i s)) = edge_heap s"
  "next_edge (snd (wrap_node cfg v i s)) = next_edge s"
  "keep_edge (snd (wrap_node cfg v i s)) = keep_edge s"
  "nodes_snapshot (snd (wrap_node cfg v i s)) = nodes_snapshot s"
  "edges_snapshot (snd (wrap_node cfg v i s)) = edges_snapshot s"
  "startTime (snd (wrap_node cfg v i s)) = startTime s"
  "end_listener (snd (wrap_node cfg v i s)) = end_listener s"
  by (simp_all add: wrap_node_def Let_def split: option.splits prod.splits)

lemma wrap_node_keep [simp]:
  "keep_node (snd (wrap_node cfg v i s)) = insert (nodeKeyAccessor cfg v) (keep_node s)"
  by (simp add: wrap_node_def Let_def split: option.splits prod.splits)

lemma wrap_node_map:
  "nodes_map (snd (wrap_node cfg v i s)) =
     (case nodes_map s (nodeKeyAccessor cfg v) of
        None \<Rightarrow> (nodes_map s)(nodeKeyAccessor cfg v \<mapsto> next_node s)
      | Some r \<Rightarrow> nodes_map s)"
  by (simp add: wrap_node_def Let_def split: option.splits prod.splits)

lemma wrap_node_ref:
  "nodes_map (snd (wrap_node cfg v i s)) (nodeKeyAccessor cfg v) = Some (fst (wrap_node cfg v i s))"
  by (simp add: wrap_node_def Let_def split: option.splits prod.splits)

lemma wrap_node_keeps_entry:
  "nodes_map s k = Some r \<Longrightarrow> nodes_map (snd (wrap_node cfg v i s)) k = Some r"
  by (auto simp: wrap_node_map split: option.splits)

lemma wrap_node_dom:
  "dom (nodes_map (snd (wrap_node cfg v i s))) = insert (nodeKeyAccessor cfg v) (dom (nodes_map s))"
  by (auto simp: wrap_node_map split: option.splits if_splits)

lemma map_wrap_node_frame [simp]:
  "edges_map (snd (map_wrap_node cfg vs i s)) = edges_map s"
  "edge_heap (snd (map_wrap_node cfg vs i s)) = edge_heap s"
  "next_edge (snd (map_wrap_node cfg vs i s)) = next_edge s"
  "keep_edge (snd (map_wrap_node cfg vs i s)) = keep_edge s"
  "nodes_snapshot (snd (map_wrap_node cfg vs i s)) = nodes_snapshot s"
  "edges_snapshot (snd (map_wrap_node cfg vs i s)) = edges_snapshot s"
  "startTime (snd (map_wrap_node cfg vs i s)) = startTime s"
  "end_listener (snd (map_wrap_node cfg vs i s)) = end_listener s"
  by (induction vs arbitrary: i s; simp add: split_beta)+

lemma map_wrap_node_keep:
  "keep_node (snd (map_wrap_node cfg vs i s)) = keep_node s \<union> nodeKeyAccessor cfg ` set vs"
  by (induction vs arbitrary: i s) (auto simp: split_beta)

lemma map_wrap_node_dom:
  "dom (nodes_map (snd (map_wrap_node cfg vs i s))) = dom (nodes_map s) \<union> nodeKeyAccessor cfg ` set vs"
  by (induction vs arbitrary: i s) (auto simp: split_beta wrap_node_dom)

lemma map_wrap_node_keeps_entry:
  "nodes_map s k = Some r \<Longrightarrow> nodes_map (snd (map_wrap_node cfg vs i s)) k = Some r"
  by (induction vs arbitrary: i s) (auto simp: split_beta wrap_node_keeps_entry)

lemma map_wrap_node_length [simp]:
  "length (fst (map_wrap_node cfg vs i s)) = length vs"
  by (induction vs arbitrary: i s) (auto simp: split_beta)

lemma wrap_edge_frame [simp]:
  "nodes_map (snd (wrap_edge cfg e s)) = nodes_map s"
  "node_heap (snd (wrap_edge cfg e s)) = node_heap s"
  "next_node (snd (wrap_edge cfg e s)) = next_node s"
  "keep_node (snd (wrap_edge cfg e s)) = keep_node s"
  "nodes_snapshot (snd (wrap_edge cfg e s)) = nodes_snapshot s"
  "edges_snapshot (snd (wrap_edge cfg e s)) = edges_snapshot s"
  "startTime (snd (wrap_edge cfg e s)) = startTime s"
  "end_listener (snd (wrap_edge cfg e s)) = end_listener s"
  by (simp_all add: wrap_edge_def Let_def split: option.splits prod.splits)

lemma wrap_edge_map:
  "edges_map (snd (wrap_edge cfg e s)) =
     (case edges_map s (edgeKeyAccessor cfg e) of
        None \<Rightarrow> (edges_map s)(edgeKeyAccessor cfg e \<mapsto> next_edge s)
      | Some r \<Rightarrow> edges_map s)"
  by (simp add: wrap_edge_def Let_def split: option.splits prod.splits)

lemma wrap_edge_dom:
  "dom (edges_map (snd (wrap_edge cfg e s))) = insert (edgeKeyAccessor cfg e) (dom (edges_map s))"
  by (auto simp: wrap_edge_map split: option.splits if_splits)

lemma map_wrap_edge_frame [simp]:
  "nodes_map (snd (map_wrap_edge cfg es s)) = nodes_map s"
  "node_heap (snd (map_wrap_edge cfg es s)) = node_heap s"
  "next_node (snd (map_wrap_edge cfg es s)) = next_node s"
  "keep_node (snd (map_wrap_edge cfg es s)) = keep_node s"
  "nodes_snapshot (snd (map_wrap_edge cfg es s)) = nodes_snapshot s"
  "edges_snapshot (snd (map_wrap_edge cfg es s)) = edges_snapshot s"
  "startTime (snd (map_wrap_edge cfg es s)) = startTime s"
  "end_listener (snd (map_wrap_edge cfg es s)) = end_listener s"
  by (induction es arbitrary: s; simp add: split_beta)+

lemma map_wrap_edge_dom:
  "dom (edges_map (snd (map_wrap_edge cfg es s))) = dom (edges_map s) \<union> edgeKeyAccessor cfg ` set es"
  by (induction es arbitrary: s) (auto simp: split_beta wrap_edge_dom)

lemma set_quicksort_by [simp]: "set (quicksort_by f xs) = set xs"
  by (simp add: quicksort_by_def)

lemma set_order_nodes [simp]: "set (order_nodes cfg vs) = set vs"
  by (simp add: order_nodes_def split: option.splits)

lemma set_order_edges [simp]: "set (order_edges cfg es) = set es"
  by (simp add: order_edges_def split: option.splits)

lemma set_induce: "set (induce cfg vs es) \<subseteq> set vs"
  by (auto simp: induce_def)

lemma reconcile_nodes_dom:
  "dom (nodes_map (snd (reconcile cfg nodes edges s))) =
     nodeKeyAccessor cfg ` set (induce cfg nodes edges)"
  by (simp add: reconcile_def Let_def split_beta sweep_def map_wrap_node_keep map_wrap_node_dom
      Int_absorb1)

lemma reconcile_edges_dom:
  "dom (edges_map (snd (reconcile cfg nodes edges s))) = edgeKeyAccessor cfg ` set edges"
  by (simp add: reconcile_def Let_def split_beta sweep_def map_wrap_edge_dom)

lemma snapshot_frame [simp]:
  "nodes_map (snd (snapshot cfg ns es s)) = nodes_map s"
  "edges_map (snd (snapshot cfg ns es s)) = edges_map s"
  "node_heap (snd (snapshot cfg ns es s)) = node_heap s"
  "edge_heap (snd (snapshot cfg ns es s)) = edge_heap s"
  "next_node (snd (snapshot cfg ns es s)) = next_node s"
  "next_edge (snd (snapshot cfg ns es s)) = next_edge s"
  "startTime (snd (snapshot cfg ns es s)) = startTime s"
  "end_listener (snd (snapshot cfg ns es s)) = end_listener s"
  by (simp_all add: snapshot_def Let_def)

lemma mark_parallel_frame:
  "mark_parallel es em s = Inr s' \<Longrightarrow>
     nodes_map s' = nodes_map s \<and> edges_map s' = edges_map s \<and> node_heap s' = node_heap s \<and>
     next_node s' = next_node s \<and> next_edge s' = next_edge s \<and>
     nodes_snapshot s' = nodes_snapshot s \<and> edges_snapshot s' = edges_snapshot s \<and>
     startTime s' = startTime s \<and> end_listener s' = end_listener s"
proof (induction es arbitrary: em s)
  case Nil
  then show ?case by simp
next
  case (Cons e es)
  then show ?case
    by (fastforce split: option.splits sum.splits prod.splits)
qed

lemma pre_redraw_frame [simp]:
  "nodes_map (pre_redraw cfg s) = nodes_map s"
  "edges_map (pre_redraw cfg s) = edges_map s"
  "node_heap (pre_redraw cfg s) = node_heap s"
  "edge_heap (pre_redraw cfg s) = edge_heap s"
  "next_node (pre_redraw cfg s) = next_node s"
  "next_edge (pre_redraw cfg s) = next_edge s"
  "nodes_snapshot (pre_redraw cfg s) = nodes_snapshot s"
  "edges_snapshot (pre_redraw cfg s) = edges_snapshot s"
  by (simp_all add: pre_redraw_def)

lemma redraw_reconciled:
  assumes "redraw h cfg now nodes edges s = Inr (effs, s')"
  shows "nodes_map s' = nodes_map (snd (reconcile cfg nodes edges (pre_redraw cfg s))) \<and>
         edges_map s' = edges_map (snd (reconcile cfg nodes edges (pre_redraw cfg s))) \<and>
         node_heap s' = node_heap (snd (reconcile cfg nodes edges (pre_redraw cfg s))) \<and>
         next_node s' = next_node (snd (reconcile cfg nodes edges (pre_redraw cfg s))) \<and>
         next_edge s' = next_edge (snd (reconcile cfg nodes edges (pre_redraw cfg s)))"
proof -
  let ?r = "reconcile cfg nodes edges (pre_redraw cfg s)"
  let ?s2 = "snd (snapshot cfg (fst (fst ?r)) (snd (fst ?r)) (snd ?r))"
  obtain s3 where s3: "(if parallelEdgeOffset cfg \<noteq> 0
       then mark_parallel (snd (fst ?r)) (em_init (length (fst (fst ?r)))) ?s2 else Inr ?s2) = Inr s3"
    and s': "s' = s3\<lparr>startTime := None\<rparr> \<or> s' = s3\<lparr>startTime := Some now, end_listener := True\<rparr>"
    using assms
    by (auto simp: redraw_def pre_redraw_def Let_def split_beta split: sum.splits if_splits)
  have "nodes_map s3 = nodes_map ?s2 \<and> edges_map s3 = edges_map ?s2 \<and>
        node_heap s3 = node_heap ?s2 \<and> next_node s3 = next_node ?s2 \<and> next_edge s3 = next_edge ?s2"
    using s3 mark_parallel_frame by (auto split: if_splits)
  then show ?thesis using s' by auto
qed

lemma wrap_node_heap_other:
  "r \<noteq> fst (wrap_node cfg v i s) \<Longrightarrow> node_heap (snd (wrap_node cfg v i s)) r = node_heap s r"
  by (auto simp: wrap_node_def Let_def split: option.splits prod.splits)

lemma wrap_node_heap_self:
  "node_orig (node_heap (snd (wrap_node cfg v i s)) (fst (wrap_node cfg v i s))) = Some v \<and>
   node_index (node_heap (snd (wrap_node cfg v i s)) (fst (wrap_node cfg v i s))) = Some i"
  by (auto simp: wrap_node_def Let_def split: option.splits prod.splits)

lemma map_wrap_node_ref_of_head:
  "nodes_map (snd (map_wrap_node cfg vs j (snd (wrap_node cfg v i s)))) (nodeKeyAccessor cfg v)
     = Some (fst (wrap_node cfg v i s))"
  by (simp add: map_wrap_node_keeps_entry wrap_node_ref)

lemma map_wrap_node_refs:
  "map Some (fst (map_wrap_node cfg vs i s)) =
     map (\<lambda>v. nodes_map (snd (map_wrap_node cfg vs i s)) (nodeKeyAccessor cfg v)) vs"
  by (induction vs arbitrary: i s) (auto simp: split_beta map_wrap_node_ref_of_head)

lemma map_wrap_node_heap_other:
  "\<forall>v\<in>set vs. nodes_map (snd (map_wrap_node cfg vs i s)) (nodeKeyAccessor cfg v) \<noteq> Some r \<Longrightarrow>
     node_heap (snd (map_wrap_node cfg vs i s)) r = node_heap s r"
proof (induction vs arbitrary: i s)
  case Nil
  then show ?case by simp
next
  case (Cons v vs)
  let ?s1 = "snd (wrap_node cfg v i s)"
  have "r \<noteq> fst (wrap_node cfg v i s)"
    using Cons.prems map_wrap_node_ref_of_head[of cfg vs "Suc i" v i s] by (auto simp: split_beta)
  then have "node_heap ?s1 r = node_heap s r" by (rule wrap_node_heap_other)
  moreover have "node_heap (snd (map_wrap_node cfg vs (Suc i) ?s1)) r = node_heap ?s1 r"
    using Cons.prems by (intro Cons.IH) (auto simp: split_beta)
  ultimately show ?case by (simp add: split_beta)
qed

lemma map_wrap_node_index:
  "v \<in> set vs \<Longrightarrow> nodes_map (snd (map_wrap_node cfg vs i s)) (nodeKeyAccessor cfg v) = Some r \<Longrightarrow>
     \<exists>j. node_index (node_heap (snd (map_wrap_node cfg vs i s)) r) = Some j \<and> i \<le> j \<and> j < i + length vs"
proof (induction vs arbitrary: i s v)
  case Nil
  then show ?case by simp
next
  case (Cons u vs)
  let ?s1 = "snd (wrap_node cfg u i s)"
  let ?s' = "snd (map_wrap_node cfg vs (Suc i) ?s1)"
  have s': "snd (map_wrap_node cfg (u # vs) i s) = ?s'" by (simp add: split_beta)
  show ?case
  proof (cases "\<exists>w\<in>set vs. nodes_map ?s' (nodeKeyAccessor cfg w) = Some r")
    case True
    then obtain w where "w \<in> set vs" "nodes_map ?s' (nodeKeyAccessor cfg w) = Some r" by blast
    from Cons.IH[OF this] show ?thesis unfolding s' by auto
  next
    case False
    then have h: "node_heap ?s' r = node_heap ?s1 r"
      by (intro map_wrap_node_heap_other) auto
    from False Cons.prems have "v = u" "nodes_map ?s' (nodeKeyAccessor cfg u) = Some r"
      unfolding s' by auto
    then have "r = fst (wrap_node cfg u i s)"
      using map_wrap_node_ref_of_head[of cfg vs "Suc i" u i s] by simp
    then show ?thesis unfolding s' h using wrap_node_heap_self[of cfg u i s] by simp
  qed
qed

lemma wrap_edge_heap_other:
  "r \<noteq> fst (wrap_edge cfg e s) \<Longrightarrow> edge_heap (snd (wrap_edge cfg e s)) r = edge_heap s r"
  by (auto simp: wrap_edge_def Let_def split: option.splits prod.splits)

lemma wrap_edge_heap_self:
  "edge_orig (edge_heap (snd (wrap_edge cfg e s)) (fst (wrap_edge cfg e s))) = Some e \<and>
   edge_source (edge_heap (snd (wrap_edge cfg e s)) (fst (wrap_edge cfg e s))) = nodes_map s (sourceAccessor cfg e) \<and>
   edge_target (edge_heap (snd (wrap_edge cfg e s)) (fst (wrap_edge cfg e s))) = nodes_map s (targetAccessor cfg e)"
  by (auto simp: wrap_edge_def Let_def split: option.splits prod.splits)

lemma map_wrap_edge_heap_other:
  "r \<notin> set (fst (map_wrap_edge cfg es s)) \<Longrightarrow> edge_heap (snd (map_wrap_edge cfg es s)) r = edge_heap s r"
  by (induction es arbitrary: s) (auto simp: split_beta wrap_edge_heap_other)

lemma map_wrap_edge_ends:
  "r \<in> set (fst (map_wrap_edge cfg es s)) \<Longrightarrow>
     \<exists>e\<in>set es. edge_orig (edge_heap (snd (map_wrap_edge cfg es s)) r) = Some e \<and>
       edge_source (edge_heap (snd (map_wrap_edge cfg es s)) r) = nodes_map s (sourceAccessor cfg e) \<and>
       edge_target (edge_heap (snd (map_wrap_edge cfg es s)) r) = nodes_map s (targetAccessor cfg e)"
proof (induction es arbitrary: s)
  case Nil
  then show ?case by simp
next
  case (Cons e es)
  let ?s1 = "snd (wrap_edge cfg e s)"
  let ?rs = "fst (map_wrap_edge cfg es ?s1)"
  let ?s' = "snd (map_wrap_edge cfg es ?s1)"
  have s': "snd (map_wrap_edge cfg (e # es) s) = ?s'" by (simp add: split_beta)
  show ?case
  proof (cases "r \<in> set ?rs")
    case True
    from Cons.IH[OF True] show ?thesis unfolding s' by auto
  next
    case False
    then have "r = fst (wrap_edge cfg e s)" using Cons.prems by (auto simp: split_beta)
    moreover have "edge_heap ?s' r = edge_heap ?s1 r"
      using False by (rule map_wrap_edge_heap_other)
    ultimately show ?thesis unfolding s' using wrap_edge_heap_self[of cfg e s] by simp
  qed
qed

lemma em_ok_init: "em_ok n (em_init n)"
  by (simp add: em_ok_def em_init_def)

lemma bump_em_ok:
  assumes "em_ok n em" "a < n" "b < n"
  shows "\<exists>em'. bump_em em a b = Inr (em ! a ! b, em') \<and> em_ok n em'"
proof -
  have "a < length em" "b < length (em ! a)" using assms by (auto simp: em_ok_def)
  moreover have "em_ok n (em[a := (em ! a)[b := Suc (em ! a ! b)]])"
    using assms unfolding em_ok_def
    by (auto dest!: set_update_subset_insert[THEN subsetD])
  ultimately show ?thesis by (simp add: bump_em_def)
qed

lemma endpoint_indices_parallel [simp]:
  "endpoint_indices (s\<lparr>edge_heap := (edge_heap s)(e := (edge_heap s e)\<lparr>edge_parallel := p\<rparr>)\<rparr>) e'
     = endpoint_indices s e'"
  by (simp add: endpoint_indices_def split: option.splits)

lemma mark_parallel_total:
  assumes "em_ok n em"
      and "\<forall>e\<in>set es. \<exists>i j. endpoint_indices s e = Some (i, j) \<and> i < n \<and> j < n"
  shows "\<exists>s'. mark_parallel es em s = Inr s'"
  using assms
proof (induction es arbitrary: em s)
  case Nil
  then show ?case by simp
next
  case (Cons e es)
  then obtain i j where ij: "endpoint_indices s e = Some (i, j)" "i < n" "j < n" by auto
  then have "min i j < n" "max i j < n" by auto
  from bump_em_ok[OF Cons.prems(1) this] obtain em'
    where em': "bump_em em (min i j) (max i j) = Inr (em ! min i j ! max i j, em')" "em_ok n em'"
    by blast
  let ?s = "s\<lparr>edge_heap := (edge_heap s)(e := (edge_heap s e)\<lparr>edge_parallel := Some (em ! min i j ! max i j)\<rparr>)\<rparr>"
  have "\<exists>s'. mark_parallel es em' ?s = Inr s'"
    using Cons.prems(2) by (intro Cons.IH[OF em'(2)]) simp
  then show ?case using ij em' by simp
qed

lemma sweep_frame [simp]:
  "node_heap (sweep s) = node_heap s" "edge_heap (sweep s) = edge_heap s"
  "next_node (sweep s) = next_node s" "next_edge (sweep s) = next_edge s"
  by (simp_all add: sweep_def)

lemma reconcile_endpoints:
  assumes "reconcile cfg nodes edges s = ((nodes1, edges1), s')"
      and "e \<in> set edges1"
  shows "\<exists>i j. endpoint_indices s' e = Some (i, j) \<and> i < length nodes1 \<and> j < length nodes1"
proof -
  let ?vs = "order_nodes cfg (induce cfg nodes edges)"
  let ?s0 = "s\<lparr>keep_node := {}, keep_edge := {}\<rparr>"
  let ?s1 = "snd (map_wrap_node cfg ?vs 0 ?s0)"
  let ?es = "order_edges cfg edges"
  let ?m = "map_wrap_edge cfg ?es (sweep ?s1)"
  have n1: "nodes1 = fst (map_wrap_node cfg ?vs 0 ?s0)" and s': "s' = snd ?m"
    and e1: "edges1 = filter (has_endpoints s') (fst ?m)"
    using assms(1) by (auto simp: reconcile_def Let_def split_beta)
  have len: "length nodes1 = length ?vs" by (simp add: n1)
  have nh: "node_heap s' = node_heap ?s1" by (simp add: s')
  have idx: "\<exists>j. node_index (node_heap s' a) = Some j \<and> j < length nodes1"
    if "nodes_map (sweep ?s1) k = Some a" for k a
  proof -
    from that have k: "k \<in> keep_node ?s1" and a: "nodes_map ?s1 k = Some a"
      by (auto simp: sweep_def restrict_map_def split: if_splits)
    from k obtain v where v: "v \<in> set ?vs" "k = nodeKeyAccessor cfg v"
      by (auto simp: map_wrap_node_keep)
    from map_wrap_node_index[OF v(1), of cfg 0 ?s0 a] a v(2) show ?thesis
      by (auto simp: nh len)
  qed
  from assms(2) have "e \<in> set (fst ?m)" and he: "has_endpoints s' e" by (auto simp: e1)
  from map_wrap_edge_ends[OF this(1)] obtain u where
    u: "edge_source (edge_heap s' e) = nodes_map (sweep ?s1) (sourceAccessor cfg u)"
       "edge_target (edge_heap s' e) = nodes_map (sweep ?s1) (targetAccessor cfg u)"
    unfolding s' by blast
  from he obtain a b where ab: "edge_source (edge_heap s' e) = Some a" "edge_target (edge_heap s' e) = Some b"
    by (auto simp: has_endpoints_def)
  have "nodes_map (sweep ?s1) (sourceAccessor cfg u) = Some a"
       "nodes_map (sweep ?s1) (targetAccessor cfg u) = Some b"
    using u ab by simp_all
  from idx[OF this(1)] idx[OF this(2)] obtain i j where
    "node_index (node_heap s' a) = Some i" "i < length nodes1"
    "node_index (node_heap s' b) = Some j" "j < length nodes1" by blast
  with ab show ?thesis by (simp add: endpoint_indices_def)
qed

lemma snapshot_endpoints [simp]:
  "endpoint_indices (snd (snapshot cfg ns es s)) e = endpoint_indices s e"
  by (simp add: endpoint_indices_def split: option.splits)

lemma engine_input_no_constraints:
  "constrain h ns es s = [] \<Longrightarrow>
     engine_input h cfg ns es s = Inr (map EdgeLink (filter (is_layout cfg s) es), [])"
  by (simp add: engine_input_def translate_constraints_def)

lemma redraw_total:
  assumes "\<And>ns es t. constrain h ns es t = []"
  shows "\<exists>effs s'. redraw h cfg now nodes edges s = Inr (effs, s')"
proof -
  let ?r = "reconcile cfg nodes edges (pre_redraw cfg s)"
  let ?n = "fst (fst ?r)" and ?e = "snd (fst ?r)"
  let ?s2 = "snd (snapshot cfg ?n ?e (snd ?r))"
  have "\<exists>s3. mark_parallel ?e (em_init (length ?n)) ?s2 = Inr s3"
  proof (rule mark_parallel_total[OF em_ok_init], rule ballI)
    fix e assume "e \<in> set ?e"
    with reconcile_endpoints[of cfg nodes edges "pre_redraw cfg s" ?n ?e "snd ?r" e]
    show "\<exists>i j. endpoint_indices ?s2 e = Some (i, j) \<and> i < length ?n \<and> j < length ?n"
      by simp
  qed
  then obtain s3 where "mark_parallel ?e (em_init (length ?n)) ?s2 = Inr s3" by blast
  then show ?thesis
    by (simp add: redraw_def pre_redraw_def Let_def split_beta engine_input_no_constraints[OF assms])
qed

lemmas eval_defs = redraw_def reconcile_def default_config_def node_a_def node_b_def edge_ab_def initial_chart_def
    induce_def order_nodes_def order_edges_def wrap_node_def wrap_edge_def sweep_def has_endpoints_def
    empty_wnode_def empty_wedge_def restrict_map_def snapshot_def em_init_def bump_em_def endpoint_indices_def
    engine_input_def no_hooks_def translate_constraints_def is_layout_def Let_def

lemma reconcile_keeps_node_wrapper:
  assumes "nodes_map s k = Some r" and "k \<in> nodeKeyAccessor cfg ` set (induce cfg nodes edges)"
  shows "nodes_map (snd (reconcile cfg nodes edges s)) k = Some r"
proof -
  let ?vs = "order_nodes cfg (induce cfg nodes edges)"
  let ?s1 = "snd (map_wrap_node cfg ?vs 0 (s\<lparr>keep_node := {}, keep_edge := {}\<rparr>))"
  have "nodes_map ?s1 k = Some r"
    using assms(1) by (intro map_wrap_node_keeps_entry) simp
  moreover have "k \<in> keep_node ?s1"
    using assms(2) by (simp add: map_wrap_node_keep)
  ultimately show ?thesis
    by (simp add: reconcile_def Let_def split_beta sweep_def)
qed

lemma redraw_keeps_node_wrapper:
  assumes "redraw h cfg now nodes edges s = Inr (effs, s')"
      and "nodes_map s k = Some r" and "k \<in> nodeKeyAccessor cfg ` set (induce cfg nodes edges)"
  shows "nodes_map s' k = Some r"
  using redraw_reconciled[OF assms(1)] reconcile_keeps_node_wrapper[of "pre_redraw cfg s" k r cfg nodes edges] assms(2,3)
  by simp

lemma wrap_edge_fresh:
  assumes "\<forall>k r. edges_map s k = Some r \<longrightarrow> n \<le> r" and "n \<le> next_edge s"
  shows "(\<forall>k r. edges_map (snd (wrap_edge cfg e s)) k = Some r \<longrightarrow> n \<le> r) \<and>
         n \<le> next_edge (snd (wrap_edge cfg e s))"
  using assms by (auto simp: wrap_edge_def Let_def split: option.splits prod.splits if_splits)

lemma map_wrap_edge_fresh:
  assumes "\<forall>k r. edges_map s k = Some r \<longrightarrow> n \<le> r" and "n \<le> next_edge s"
  shows "(\<forall>k r. edges_map (snd (map_wrap_edge cfg es s)) k = Some r \<longrightarrow> n \<le> r) \<and>
         n \<le> next_edge (snd (map_wrap_edge cfg es s))"
  using assms
proof (induction es arbitrary: s)
  case Nil
  then show ?case by simp
next
  case (Cons e es)
  from wrap_edge_fresh[OF Cons.prems] Cons.IH[of "snd (wrap_edge cfg e s)"]
  show ?case by (simp add: split_beta)
qed

lemma reconcile_edge_wrapper_fresh:
  assumes "edges_map (snd (reconcile cfg nodes edges s)) k = Some r"
  shows "next_edge s \<le> r"
proof -
  let ?vs = "order_nodes cfg (induce cfg nodes edges)"
  let ?s2 = "sweep (snd (map_wrap_node cfg ?vs 0 (s\<lparr>keep_node := {}, keep_edge := {}\<rparr>)))"
  have "\<forall>k r. edges_map ?s2 k = Some r \<longrightarrow> next_edge s \<le> r" "next_edge s \<le> next_edge ?s2"
    by (simp_all add: sweep_def)
  from map_wrap_edge_fresh[OF this, of cfg "order_edges cfg edges"] assms
  show ?thesis by (simp add: reconcile_def Let_def split_beta)
qed

lemma redraw_edge_wrapper_fresh:
  assumes "redraw h cfg now nodes edges s = Inr (effs, s')" and "edges_map s' k = Some r"
  shows "next_edge s \<le> r"
  using redraw_reconciled[OF assms(1)] reconcile_edge_wrapper_fresh[of cfg nodes edges "pre_redraw cfg s" k r] assms(2)
  by simp

section \<open>Lemmas about the port placement\<close>

lemma normalize_angle_id:
  assumes "- pi < theta" "theta \<le> pi"
  shows "normalize_angle theta = theta"
proof -
  have "\<lceil>(theta - pi) / (2 * pi)\<rceil> = 0"
  proof (rule ceiling_unique)
    have "- (2 * pi) < theta - pi" using assms by simp
    then have "- 1 < (theta - pi) / (2 * pi)"
      using pi_gt_zero by (simp add: pos_less_divide_eq)
    then show "of_int 0 - 1 < (theta - pi) / (2 * pi)" by simp
    have "theta - pi \<le> 0" using assms by simp
    then have "(theta - pi) / (2 * pi) \<le> 0"
      using pi_gt_zero by (simp add: divide_le_0_iff)
    then show "(theta - pi) / (2 * pi) \<le> of_int 0" by simp
  qed
  then show ?thesis by (simp add: normalize_angle_def)
qed

lemma normalize_angle_range: "- pi < normalize_angle theta \<and> normalize_angle theta \<le> pi"
proof -
  let ?x = "(theta - pi) / (2 * pi)"
  have p: "0 < 2 * pi" using pi_gt_zero by simp
  have t: "theta = 2 * pi * ?x + pi" using p by (simp add: field_simps)
  have "of_int \<lceil>?x\<rceil> - 1 < ?x" "?x \<le> of_int \<lceil>?x\<rceil>" by linarith+
  then have "2 * pi * (of_int \<lceil>?x\<rceil> - 1) < 2 * pi * ?x" "2 * pi * ?x \<le> 2 * pi * of_int \<lceil>?x\<rceil>"
    using p by (simp_all only: mult_less_cancel_left_pos mult_le_cancel_left_pos)
  then have "normalize_angle theta > - pi" "normalize_angle theta \<le> pi"
    unfolding normalize_angle_def using t by (simp_all add: algebra_simps)
  then show ?thesis by simp
qed

lemma normalize_angle_idem: "normalize_angle (normalize_angle theta) = normalize_angle theta"
  using normalize_angle_range[of theta] by (intro normalize_angle_id) simp_all

lemma assign_vec_theta [simp]: "port_theta (assign_vec a n p) = port_theta p"
  by (simp add: assign_vec_def Let_def split: option.splits prod.splits)

lemma classify_unplaced_iff:
  "classify a (assign_vec a n p) = Unplaced \<longleftrightarrow> port_theta p = None"
  by (auto simp: classify_def split: option.splits prod.splits if_splits)

lemma clip_angle_closer:
  "(clip_angle a theta lo hi = lo \<or> clip_angle a theta lo hi = hi) \<and>
   \<bar>norm_angle a (theta - clip_angle a theta lo hi)\<bar> =
     min \<bar>norm_angle a (theta - lo)\<bar> \<bar>norm_angle a (theta - hi)\<bar>"
  by (simp add: clip_angle_def)

lemma west_assigned:
  "assign_vec example_angles 0 port_west =
     port_west\<lparr>port_vec := Some (Angle pi), port_bounds := Some (0, pi / 2)\<rparr>"
proof -
  have "normalize_angle 0 = 0" "normalize_angle (pi / 2) = pi / 2"
    using pi_gt_zero by (simp_all add: normalize_angle_id)
  then show ?thesis
    by (simp add: assign_vec_def example_angles_def port_west_def Let_def)
qed

lemma west_outside: "classify example_angles (assign_vec example_angles 0 port_west) = Outside"
  unfolding west_assigned
  using pi_gt_zero by (simp add: classify_def port_west_def example_angles_def)

lemma clip_west: "clip_angle example_angles pi 0 (pi / 2) = pi / 2"
proof -
  have n: "normalize_angle (pi - 0) = pi" "normalize_angle (pi - pi / 2) = pi / 2"
    using pi_gt_zero by (simp_all add: normalize_angle_id)
  have "\<not> \<bar>normalize_angle (pi - 0)\<bar> < \<bar>normalize_angle (pi - pi / 2)\<bar>"
    unfolding n using pi_gt_zero by simp
  then show ?thesis
    unfolding clip_angle_def example_angles_def angles.select_convs by (rule if_not_P)
qed

lemma sqrt_25: "sqrt 25 = 5"
  by (rule real_sqrt_unique) simp_all

section \<open>Lemmas about the constraints\<close>

lemma collect_Inr:
  "collect xs = Inr ys \<Longrightarrow> map Inr ys = xs"
  by (induction xs arbitrary: ys) (auto split: sum.splits)

lemma collect_map_Inr [simp]: "collect (map Inr ys) = Inr ys"
  by (induction ys) auto

lemma collect_total:
  "\<forall>x\<in>set xs. \<exists>y. x = Inr y \<Longrightarrow> \<exists>ys. collect xs = Inr ys"
  by (induction xs) (auto split: sum.splits)


lemma those_total:
  "set ks \<subseteq> dom m \<Longrightarrow> \<exists>rs. those (map m ks) = Some rs"
  by (induction ks) (auto split: option.splits)


lemma gap_chain_total:
  "\<forall>n\<in>set (left # ns). \<exists>i. index_of s n = Inr i \<Longrightarrow> \<exists>cs. gap_chain s ax g left ns = Inr cs"
  by (induction ns arbitrary: left) (fastforce split: sum.splits)+

lemma gap_chain_gaps:
  "gap_chain s ax g left ns = Inr cs \<Longrightarrow> c \<in> set cs \<Longrightarrow> \<not> is_circle c \<and> \<not> is_ordering c"
  by (induction ns arbitrary: left cs) (auto split: sum.splits)

lemma ordering_gaps_gaps:
  "ordering_gaps s c0 = Inr cs \<Longrightarrow> c \<in> set cs \<Longrightarrow> \<not> is_circle c \<and> \<not> is_ordering c"
  by (cases c0) (auto split: if_splits option.splits list.splits dest: gap_chain_gaps)

lemma collect_gaps:
  assumes "collect (map (ordering_gaps s) ocs) = Inr gaps" and "c \<in> set (concat gaps)"
  shows "\<not> is_circle c \<and> \<not> is_ordering c"
proof -
  from assms(2) obtain gs where gs: "gs \<in> set gaps" "c \<in> set gs" by auto
  then obtain i where i: "i < length gaps" "gaps ! i = gs" by (auto simp: in_set_conv_nth)
  from collect_Inr[OF assms(1)] have m: "map Inr gaps = map (ordering_gaps s) ocs" .
  then have "length gaps = length ocs" by (metis length_map)
  with i m have "ordering_gaps s (ocs ! i) = Inr gs"
    by (metis nth_map)
  from ordering_gaps_gaps[OF this gs(2)] show ?thesis .
qed

lemma ordering_not_circle: "is_ordering c \<Longrightarrow> \<not> is_circle c"
  by (cases c) auto

lemma filter_ordering_noncircle:
  "filter is_ordering (filter (\<lambda>c. \<not> is_circle c) cs) = filter is_ordering cs"
  by (induction cs) (auto dest: ordering_not_circle)

lemma engine_input_Inr:
  assumes "engine_input h cfg nodes1 edges1 s = Inr (links, cons)"
  shows "\<exists>tcs gaps. translate_constraints s (constrain h nodes1 edges1 s) = Inr tcs \<and>
           collect (map (ordering_gaps s) (filter is_ordering tcs)) = Inr gaps \<and>
           links = map EdgeLink (filter (is_layout cfg s) edges1) @
                   concat (map (wheel h cfg nodes1 s) (filter is_circle tcs)) \<and>
           cons = filter (\<lambda>c. \<not> is_circle c \<and> \<not> is_ordering c) tcs @ concat gaps"
proof -
  from assms obtain tcs where
    t: "translate_constraints s (constrain h nodes1 edges1 s) = Inr tcs"
    by (auto simp: engine_input_def split: sum.splits)
  have f1: "filter is_ordering (filter (\<lambda>c. \<not> is_circle c) tcs) = filter is_ordering tcs"
    by (rule filter_ordering_noncircle)
  have f2: "filter (\<lambda>c. \<not> is_ordering c) (filter (\<lambda>c. \<not> is_circle c) tcs) =
        filter (\<lambda>c. \<not> is_circle c \<and> \<not> is_ordering c) tcs"
    by (simp add: conj_commute)
  from assms t obtain gaps where
    g: "collect (map (ordering_gaps s) (filter is_ordering (filter (\<lambda>c. \<not> is_circle c) tcs))) = Inr gaps"
    and r: "links = map EdgeLink (filter (is_layout cfg s) edges1) @
                   concat (map (wheel h cfg nodes1 s) (filter is_circle tcs))"
       "cons = filter (\<lambda>c. \<not> is_ordering c) (filter (\<lambda>c. \<not> is_circle c) tcs) @ concat gaps"
    unfolding engine_input_def Let_def by (auto split: sum.splits simp del: filter_filter)
  show ?thesis using t g r unfolding f1 f2 by blast
qed




lemma translate_circle:
  "translate_constraint s (Circle ks d) = Inr c \<Longrightarrow>
     \<exists>is. c = Circle is d \<and> length is = length ks \<and> map Inr is = map (node_index_of s) ks"
  by (auto split: sum.splits dest!: collect_Inr) (metis length_map)

lemma sqrt2_bounds: "14142 / 10000 < sqrt 2 \<and> sqrt 2 < 14143 / 10000"
proof
  show "14142 / 10000 < sqrt 2"
    by (rule real_less_rsqrt) (simp add: power2_eq_square)
  show "sqrt 2 < 14143 / 10000"
    by (rule real_less_lsqrt) (simp_all add: power2_eq_square)
qed

section \<open>Lemmas about the parallel edges\<close>

lemma pair_key_parallel [simp]:
  "pair_key (s\<lparr>edge_heap := (edge_heap s)(e := (edge_heap s e)\<lparr>edge_parallel := p\<rparr>)\<rparr>) e' = pair_key s e'"
  by (simp add: pair_key_def)

lemma mark_parallel_heap_other:
  "mark_parallel es em s = Inr s' \<Longrightarrow> e \<notin> set es \<Longrightarrow> edge_heap s' e = edge_heap s e"
proof (induction es arbitrary: em s)
  case Nil
  then show ?case by simp
next
  case (Cons x es)
  then show ?case
    by (fastforce split: option.splits sum.splits prod.splits)
qed

lemma mark_parallel_endpoints:
  "mark_parallel es em s = Inr s' \<Longrightarrow> endpoint_indices s' e = endpoint_indices s e"
proof (induction es arbitrary: em s)
  case Nil
  then show ?case by simp
next
  case (Cons x es)
  from Cons.prems obtain i j p em' where
    h: "endpoint_indices s x = Some (i, j)" "bump_em em (min i j) (max i j) = Inr (p, em')"
       "mark_parallel es em' (s\<lparr>edge_heap := (edge_heap s)(x := (edge_heap s x)\<lparr>edge_parallel := Some p\<rparr>)\<rparr>) = Inr s'"
    by (auto split: option.splits sum.splits prod.splits)
  from Cons.IH[OF h(3)] show ?case by simp
qed

lemma bump_em_Inr:
  assumes "bump_em em a b = Inr (p, em')"
  shows "p = em ! a ! b \<and> em' ! a' ! b' = (if a' = a \<and> b' = b then Suc (em ! a ! b) else em ! a' ! b')"
proof -
  from assms have r: "a < length em" "b < length (em ! a)" "p = em ! a ! b"
    and em': "em' = em[a := (em ! a)[b := Suc (em ! a ! b)]]"
    by (auto simp: bump_em_def split: if_splits)
  show ?thesis
  proof (cases "a' = a")
    case True
    then show ?thesis using r em' by (cases "b' = b") simp_all
  next
    case False
    then show ?thesis using r em' by simp
  qed
qed

lemma mark_parallel_counts:
  assumes "mark_parallel es em s = Inr s'" and "distinct es" and "i < length es" and "em_ok n em"
  shows "\<exists>a b. pair_key s (es ! i) = Some (a, b) \<and> a < n \<and> b < n \<and>
           edge_parallel (edge_heap s' (es ! i)) =
             Some (em ! a ! b + length (filter (\<lambda>e. pair_key s e = Some (a, b)) (take i es)))"
  using assms
proof (induction es arbitrary: em s i)
  case Nil
  then show ?case by simp
next
  case (Cons x es)
  from Cons.prems(1) obtain k l p em' where
    h: "endpoint_indices s x = Some (k, l)" "bump_em em (min k l) (max k l) = Inr (p, em')"
    and m: "mark_parallel es em' (s\<lparr>edge_heap := (edge_heap s)(x := (edge_heap s x)\<lparr>edge_parallel := Some p\<rparr>)\<rparr>) = Inr s'"
    by (auto split: option.splits sum.splits prod.splits)
  let ?s = "s\<lparr>edge_heap := (edge_heap s)(x := (edge_heap s x)\<lparr>edge_parallel := Some p\<rparr>)\<rparr>"
  have kx: "pair_key s x = Some (min k l, max k l)" using h(1) by (simp add: pair_key_def)
  note b = bump_em_Inr[OF h(2)]
  have r: "min k l < n" "max k l < n"
    using h(2) Cons.prems(4) by (auto simp: bump_em_def em_ok_def split: if_splits)
  from bump_em_ok[OF Cons.prems(4) r] h(2) have ok': "em_ok n em'" by auto
  show ?case
  proof (cases i)
    case 0
    have "edge_heap s' x = edge_heap ?s x"
      using Cons.prems(2) by (intro mark_parallel_heap_other[OF m]) simp
    then show ?thesis using 0 kx b r by simp
  next
    case (Suc i')
    then have i': "i' < length es" using Cons.prems(3) by simp
    from Cons.IH[OF m _ i' ok'] Cons.prems(2) obtain a c where
      ih: "pair_key s (es ! i') = Some (a, c)" "a < n" "c < n"
          "edge_parallel (edge_heap s' (es ! i')) =
             Some (em' ! a ! c + length (filter (\<lambda>e. pair_key s e = Some (a, c)) (take i' es)))"
      by auto
    have "em' ! a ! c = (if (a, c) = (min k l, max k l) then Suc (em ! a ! c) else em ! a ! c)"
      using b by auto
    then show ?thesis using Suc ih kx by auto
  qed
qed

lemma class_positions:
  "map (\<lambda>i. length (filter P (take i xs))) (filter (\<lambda>i. P (xs ! i)) [0..<length xs]) =
     [0..<length (filter P xs)]"
proof (induction xs rule: rev_induct)
  case Nil
  then show ?case by simp
next
  case (snoc x xs)
  have 1: "filter (\<lambda>i. P ((xs @ [x]) ! i)) [0..<length xs] = filter (\<lambda>i. P (xs ! i)) [0..<length xs]"
    by (rule filter_cong) (auto simp: nth_append)
  have 2: "map (\<lambda>i. length (filter P (take i (xs @ [x])))) (filter (\<lambda>i. P (xs ! i)) [0..<length xs]) =
           map (\<lambda>i. length (filter P (take i xs))) (filter (\<lambda>i. P (xs ! i)) [0..<length xs])"
    by (rule map_cong) auto
  show ?case using snoc 1 2 by (simp add: nth_append)
qed

lemma filter_as_positions:
  "filter Q xs = map (\<lambda>i. xs ! i) (filter (\<lambda>i. Q (xs ! i)) [0..<length xs])"
proof (induction xs rule: rev_induct)
  case Nil
  then show ?case by simp
next
  case (snoc x xs)
  have 1: "filter (\<lambda>i. Q ((xs @ [x]) ! i)) [0..<length xs] = filter (\<lambda>i. Q (xs ! i)) [0..<length xs]"
    by (rule filter_cong) (auto simp: nth_append)
  have 2: "map (\<lambda>i. (xs @ [x]) ! i) (filter (\<lambda>i. Q (xs ! i)) [0..<length xs]) =
           map (\<lambda>i. xs ! i) (filter (\<lambda>i. Q (xs ! i)) [0..<length xs])"
    by (rule map_cong) (auto simp: nth_append)
  show ?case using snoc 1 2 by (simp add: nth_append)
qed

lemma mark_parallel_classes:
  assumes "mark_parallel es (em_init n) s = Inr s'" and "distinct es"
  shows "map (\<lambda>e. edge_parallel (edge_heap s' e)) (filter (\<lambda>e. pair_key s e = Some p) es) =
           map Some [0..<length (filter (\<lambda>e. pair_key s e = Some p) es)]"
proof -
  let ?P = "\<lambda>e. pair_key s e = Some p"
  let ?pos = "filter (\<lambda>i. ?P (es ! i)) [0..<length es]"
  have v: "edge_parallel (edge_heap s' (es ! i)) = Some (length (filter ?P (take i es)))"
    if "i \<in> set ?pos" for i
  proof -
    from that have i: "i < length es" and pi: "pair_key s (es ! i) = Some p" by auto
    obtain a b where p: "p = (a, b)" by (cases p)
    from mark_parallel_counts[OF assms i em_ok_init] pi p have
      c: "edge_parallel (edge_heap s' (es ! i)) =
             Some (em_init n ! a ! b + length (filter ?P (take i es)))" and "a < n" "b < n" by auto
    then have "em_init n ! a ! b = 0" by (simp add: em_init_def)
    with c show ?thesis by simp
  qed
  have "map (\<lambda>e. edge_parallel (edge_heap s' e)) (filter ?P es) =
        map (\<lambda>i. edge_parallel (edge_heap s' (es ! i))) ?pos"
    by (subst filter_as_positions[of ?P es]) (simp add: comp_def)
  also have "\<dots> = map (\<lambda>i. Some (length (filter ?P (take i es)))) ?pos"
    by (rule map_cong) (auto simp: v)
  also have "\<dots> = map Some (map (\<lambda>i. length (filter ?P (take i es))) ?pos)"
    by (simp add: comp_def)
  also have "\<dots> = map Some [0..<length (filter ?P es)]"
    using class_positions[of ?P es] by simp
  finally show ?thesis .
qed

lemma wrap_edge_new:
  "edges_map s (edgeKeyAccessor cfg e) = None \<Longrightarrow>
     fst (wrap_edge cfg e s) = next_edge s \<and>
     next_edge (snd (wrap_edge cfg e s)) = Suc (next_edge s) \<and>
     dom (edges_map (snd (wrap_edge cfg e s))) = insert (edgeKeyAccessor cfg e) (dom (edges_map s))"
  by (auto simp: wrap_edge_def Let_def split: option.splits prod.splits if_splits)

lemma map_wrap_edge_refs:
  assumes "distinct (map (edgeKeyAccessor cfg) es)"
      and "\<forall>e\<in>set es. edgeKeyAccessor cfg e \<notin> dom (edges_map s)"
  shows "distinct (fst (map_wrap_edge cfg es s)) \<and>
         (\<forall>r\<in>set (fst (map_wrap_edge cfg es s)). next_edge s \<le> r)"
  using assms
proof (induction es arbitrary: s)
  case Nil
  then show ?case by simp
next
  case (Cons e es)
  have n: "edges_map s (edgeKeyAccessor cfg e) = None" using Cons.prems(2) by auto
  note w = wrap_edge_new[OF n]
  let ?s1 = "snd (wrap_edge cfg e s)"
  have "distinct (fst (map_wrap_edge cfg es ?s1)) \<and>
         (\<forall>r\<in>set (fst (map_wrap_edge cfg es ?s1)). next_edge ?s1 \<le> r)"
  proof (intro Cons.IH)
    show "distinct (map (edgeKeyAccessor cfg) es)" using Cons.prems(1) by simp
    show "\<forall>x\<in>set es. edgeKeyAccessor cfg x \<notin> dom (edges_map ?s1)"
    proof
      fix x assume x: "x \<in> set es"
      then have "edgeKeyAccessor cfg x \<noteq> edgeKeyAccessor cfg e"
        using Cons.prems(1) by (metis distinct.simps(2) image_eqI list.simps(9) list.set_map)
      moreover have "edgeKeyAccessor cfg x \<notin> dom (edges_map s)" using Cons.prems(2) x by simp
      ultimately show "edgeKeyAccessor cfg x \<notin> dom (edges_map ?s1)"
        using w by simp
    qed
  qed
  then show ?case using w by (auto simp: split_beta)
qed

lemma distinct_keys_sorted:
  "distinct (map k (quicksort_by f xs)) = distinct (map k xs)"
  by (simp add: quicksort_by_def distinct_map)

lemma reconcile_edges_distinct:
  assumes "reconcile cfg nodes edges s = ((nodes1, edges1), s1)"
      and "distinct (map (edgeKeyAccessor cfg) edges)"
  shows "distinct edges1"
proof -
  let ?vs = "order_nodes cfg (induce cfg nodes edges)"
  let ?s2 = "sweep (snd (map_wrap_node cfg ?vs 0 (s\<lparr>keep_node := {}, keep_edge := {}\<rparr>)))"
  let ?es = "order_edges cfg edges"
  have d: "distinct (map (edgeKeyAccessor cfg) ?es)"
    using assms(2) by (simp add: order_edges_def distinct_keys_sorted split: option.splits)
  have "dom (edges_map ?s2) = {}" by (simp add: sweep_def)
  then have "\<forall>e\<in>set ?es. edgeKeyAccessor cfg e \<notin> dom (edges_map ?s2)" by simp
  from map_wrap_edge_refs[OF d this] have "distinct (fst (map_wrap_edge cfg ?es ?s2))" by blast
  moreover have "edges1 = filter (has_endpoints s1) (fst (map_wrap_edge cfg ?es ?s2))"
    using assms(1) by (auto simp: reconcile_def Let_def split_beta)
  ultimately show ?thesis by simp
qed

lemma redraw_marked:
  assumes "redraw h cfg now nodes edges s = Inr (effs, s')"
      and "reconcile cfg nodes edges (pre_redraw cfg s) = ((nodes1, edges1), s1)"
      and "parallelEdgeOffset cfg \<noteq> 0"
  shows "\<exists>s3. mark_parallel edges1 (em_init (length nodes1)) (snd (snapshot cfg nodes1 edges1 s1)) = Inr s3 \<and>
           edge_heap s' = edge_heap s3 \<and> node_heap s' = node_heap s3"
  using assms
  by (auto simp: redraw_def pre_redraw_def Let_def split_beta split: sum.splits if_splits)

lemma pair_key_cong:
  "endpoint_indices s e = endpoint_indices t e \<Longrightarrow> pair_key s e = pair_key t e"
  by (simp add: pair_key_def)

lemma endpoint_indices_heaps:
  "edge_heap s = edge_heap t \<Longrightarrow> node_heap s = node_heap t \<Longrightarrow>
     endpoint_indices s e = endpoint_indices t e"
  by (simp add: endpoint_indices_def split: option.splits)

lemma unordered_pair:
  "((min i j, max i j) = (min i' j', max i' j')) = ({i, j} = {i', j'})" for i j i' j' :: nat
  by (auto simp: min_def max_def doubleton_eq_iff)

lemmas abc_eval = chart_abc_def reconcile_def pre_redraw_def default_config_def node_a_def node_b_def
    node_c_def edge_ab_def edge_ab2_def edge_bc_def initial_chart_def induce_def order_nodes_def
    order_edges_def wrap_node_def wrap_edge_def sweep_def has_endpoints_def
    empty_wnode_def empty_wedge_def restrict_map_def Let_def

lemma abc_reconciled:
  "reconcile default_config [node_a, node_b, node_c] [edge_ab, edge_ab2, edge_bc]
     (pre_redraw default_config initial_chart) = (([0, 1, 2], [0, 1, 2]), chart_abc)"
proof -
  have "fst (reconcile default_config [node_a, node_b, node_c] [edge_ab, edge_ab2, edge_bc]
     (pre_redraw default_config initial_chart)) = ([0, 1, 2], [0, 1, 2])"
    by (simp add: abc_eval)
  then show ?thesis by (simp add: chart_abc_def prod_eq_iff)
qed

lemma abc_endpoints:
  "endpoint_indices chart_abc 0 = Some (0, 1)"
  "endpoint_indices chart_abc (Suc 0) = Some (0, 1)"
  "endpoint_indices chart_abc 2 = Some (1, 2)"
  by (simp_all add: endpoint_indices_def abc_eval)

section \<open>Lemmas about the snapshots, the positions and the listeners\<close>

lemma map_wrap_node_orig:
  "v \<in> set vs \<Longrightarrow> nodes_map (snd (map_wrap_node cfg vs i s)) (nodeKeyAccessor cfg v) = Some r \<Longrightarrow>
     node_orig (node_heap (snd (map_wrap_node cfg vs i s)) r) =
       Some (last (filter (\<lambda>u. nodes_map (snd (map_wrap_node cfg vs i s)) (nodeKeyAccessor cfg u) = Some r) vs))"
proof (induction vs arbitrary: i s v)
  case Nil
  then show ?case by simp
next
  case (Cons u vs)
  let ?s1 = "snd (wrap_node cfg u i s)"
  let ?s' = "snd (map_wrap_node cfg vs (Suc i) ?s1)"
  let ?P = "\<lambda>w. nodes_map ?s' (nodeKeyAccessor cfg w) = Some r"
  have s': "snd (map_wrap_node cfg (u # vs) i s) = ?s'" by (simp add: split_beta)
  show ?case
  proof (cases "\<exists>w\<in>set vs. ?P w")
    case True
    then obtain w where w: "w \<in> set vs" "?P w" by blast
    then have ne: "filter ?P vs \<noteq> []" by (auto simp: filter_empty_conv)
    from Cons.IH[OF w] ne show ?thesis unfolding s' by simp
  next
    case False
    then have h: "node_heap ?s' r = node_heap ?s1 r"
      by (intro map_wrap_node_heap_other) auto
    from False have e: "filter ?P vs = []" by (auto simp: filter_empty_conv)
    from False Cons.prems have "v = u" "?P u"
      unfolding s' by auto
    then have "r = fst (wrap_node cfg u i s)"
      using map_wrap_node_ref_of_head[of cfg vs "Suc i" u i s] by simp
    then show ?thesis unfolding s' h using wrap_node_heap_self[of cfg u i s] e \<open>?P u\<close> by simp
  qed
qed

lemma wrap_node_present:
  "nodes_map s (nodeKeyAccessor cfg v) = Some r \<Longrightarrow>
     fst (wrap_node cfg v i s) = r \<and> nodes_map (snd (wrap_node cfg v i s)) = nodes_map s"
  by (simp add: wrap_node_def Let_def)

lemma map_wrap_node_present:
  "\<forall>v\<in>set vs. nodeKeyAccessor cfg v \<in> dom (nodes_map s) \<Longrightarrow>
     nodes_map (snd (map_wrap_node cfg vs i s)) = nodes_map s"
proof (induction vs arbitrary: i s)
  case Nil
  then show ?case by simp
next
  case (Cons v vs)
  then obtain r where "nodes_map s (nodeKeyAccessor cfg v) = Some r" by auto
  from wrap_node_present[OF this] Cons show ?case by (simp add: split_beta)
qed

lemma wrap_node_xy:
  assumes "nodes_map s (nodeKeyAccessor cfg v) = Some r0"
      and "r0 = r \<longrightarrow> fixed_of cfg v = None"
  shows "node_x (node_heap (snd (wrap_node cfg v i s)) r) = node_x (node_heap s r) \<and>
         node_y (node_heap (snd (wrap_node cfg v i s)) r) = node_y (node_heap s r)"
  using assms by (auto simp: wrap_node_def Let_def fixed_of_def split: option.splits)

lemma map_wrap_node_xy:
  assumes "\<forall>v\<in>set vs. nodeKeyAccessor cfg v \<in> dom (nodes_map s)"
      and "\<forall>v\<in>set vs. nodes_map s (nodeKeyAccessor cfg v) = Some r \<longrightarrow> fixed_of cfg v = None"
  shows "node_x (node_heap (snd (map_wrap_node cfg vs i s)) r) = node_x (node_heap s r) \<and>
         node_y (node_heap (snd (map_wrap_node cfg vs i s)) r) = node_y (node_heap s r)"
  using assms
proof (induction vs arbitrary: i s)
  case Nil
  then show ?case by simp
next
  case (Cons v vs)
  then obtain r0 where r0: "nodes_map s (nodeKeyAccessor cfg v) = Some r0" by auto
  let ?s1 = "snd (wrap_node cfg v i s)"
  have m: "nodes_map ?s1 = nodes_map s" using wrap_node_present[OF r0] by simp
  have "r0 = r \<longrightarrow> fixed_of cfg v = None" using Cons.prems(2) r0 by simp
  from wrap_node_xy[OF r0 this] have
    x1: "node_x (node_heap ?s1 r) = node_x (node_heap s r) \<and> node_y (node_heap ?s1 r) = node_y (node_heap s r)" .
  have "node_x (node_heap (snd (map_wrap_node cfg vs (Suc i) ?s1)) r) = node_x (node_heap ?s1 r) \<and>
        node_y (node_heap (snd (map_wrap_node cfg vs (Suc i) ?s1)) r) = node_y (node_heap ?s1 r)"
    using Cons.prems by (intro Cons.IH) (simp_all add: m)
  with x1 show ?case by (simp add: split_beta)
qed

lemma wrap_edge_inj:
  assumes "edges_inj s"
  shows "edges_inj (snd (wrap_edge cfg e s))"
proof (cases "edges_map s (edgeKeyAccessor cfg e)")
  case None
  have m: "edges_map (snd (wrap_edge cfg e s)) = (edges_map s)(edgeKeyAccessor cfg e \<mapsto> next_edge s)"
    and n: "next_edge (snd (wrap_edge cfg e s)) = Suc (next_edge s)"
    using None by (simp_all add: wrap_edge_def Let_def)
  have lt: "\<And>k r. edges_map s k = Some r \<Longrightarrow> r < next_edge s"
    and inj: "\<And>k k' r. edges_map s k = Some r \<Longrightarrow> edges_map s k' = Some r \<Longrightarrow> k = k'"
    using assms unfolding edges_inj_def by blast+
  show ?thesis unfolding edges_inj_def m n
  proof (intro conjI allI impI)
    fix k r assume "((edges_map s)(edgeKeyAccessor cfg e \<mapsto> next_edge s)) k = Some r"
    then show "r < Suc (next_edge s)" using lt[of k r] by (cases "k = edgeKeyAccessor cfg e") auto
  next
    fix k k' r
    assume a: "((edges_map s)(edgeKeyAccessor cfg e \<mapsto> next_edge s)) k = Some r \<and>
               ((edges_map s)(edgeKeyAccessor cfg e \<mapsto> next_edge s)) k' = Some r"
    show "k = k'"
    proof (cases "k = edgeKeyAccessor cfg e")
      case True
      with a have r: "r = next_edge s" by simp
      show ?thesis
      proof (rule ccontr)
        assume "k \<noteq> k'"
        with True a have "edges_map s k' = Some r" by simp
        from lt[OF this] r show False by simp
      qed
    next
      case False
      with a have k: "edges_map s k = Some r" by simp
      show ?thesis
      proof (cases "k' = edgeKeyAccessor cfg e")
        case True
        with a have "r = next_edge s" by simp
        with lt[OF k] show ?thesis by simp
      next
        case False
        with a have "edges_map s k' = Some r" by simp
        from inj[OF k this] show ?thesis .
      qed
    qed
  qed
next
  case (Some r)
  then have "edges_map (snd (wrap_edge cfg e s)) = edges_map s"
    "next_edge (snd (wrap_edge cfg e s)) = next_edge s"
    by (simp_all add: wrap_edge_def Let_def)
  then show ?thesis using assms by (simp add: edges_inj_def)
qed

lemma map_wrap_edge_inj: "edges_inj s \<Longrightarrow> edges_inj (snd (map_wrap_edge cfg es s))"
  by (induction es arbitrary: s) (auto simp: split_beta wrap_edge_inj)

lemma wrap_edge_ref:
  "edges_map (snd (wrap_edge cfg e s)) (edgeKeyAccessor cfg e) = Some (fst (wrap_edge cfg e s))"
  by (simp add: wrap_edge_def Let_def split: option.splits prod.splits)

lemma wrap_edge_keeps_entry:
  "edges_map s k = Some r \<Longrightarrow> edges_map (snd (wrap_edge cfg e s)) k = Some r"
  by (auto simp: wrap_edge_map split: option.splits)

lemma map_wrap_edge_keeps_entry:
  "edges_map s k = Some r \<Longrightarrow> edges_map (snd (map_wrap_edge cfg es s)) k = Some r"
  by (induction es arbitrary: s) (auto simp: split_beta wrap_edge_keeps_entry)

lemma map_wrap_edge_refs_map:
  "map Some (fst (map_wrap_edge cfg es s)) =
     map (\<lambda>e. edges_map (snd (map_wrap_edge cfg es s)) (edgeKeyAccessor cfg e)) es"
  by (induction es arbitrary: s) (auto simp: split_beta map_wrap_edge_keeps_entry wrap_edge_ref)

lemma map_wrap_edge_last:
  "e \<in> set es \<Longrightarrow> edges_map (snd (map_wrap_edge cfg es s)) (edgeKeyAccessor cfg e) = Some r \<Longrightarrow>
     (let l = last (filter (\<lambda>u. edges_map (snd (map_wrap_edge cfg es s)) (edgeKeyAccessor cfg u) = Some r) es)
      in edge_orig (edge_heap (snd (map_wrap_edge cfg es s)) r) = Some l \<and>
         edge_source (edge_heap (snd (map_wrap_edge cfg es s)) r) = nodes_map s (sourceAccessor cfg l) \<and>
         edge_target (edge_heap (snd (map_wrap_edge cfg es s)) r) = nodes_map s (targetAccessor cfg l))"
proof (induction es arbitrary: s e)
  case Nil
  then show ?case by simp
next
  case (Cons u es)
  let ?s1 = "snd (wrap_edge cfg u s)"
  let ?s' = "snd (map_wrap_edge cfg es ?s1)"
  let ?P = "\<lambda>w. edges_map ?s' (edgeKeyAccessor cfg w) = Some r"
  have s': "snd (map_wrap_edge cfg (u # es) s) = ?s'" by (simp add: split_beta)
  have hd: "edges_map ?s' (edgeKeyAccessor cfg u) = Some (fst (wrap_edge cfg u s))"
    by (simp add: map_wrap_edge_keeps_entry wrap_edge_ref)
  show ?case
  proof (cases "\<exists>w\<in>set es. ?P w")
    case True
    then obtain w where w: "w \<in> set es" "?P w" by blast
    then have ne: "filter ?P es \<noteq> []" by (auto simp: filter_empty_conv)
    from Cons.IH[OF w] ne show ?thesis unfolding s' by (simp add: Let_def)
  next
    case False
    then have e: "filter ?P es = []" by (auto simp: filter_empty_conv)
    from False Cons.prems have "e = u" "?P u" unfolding s' by auto
    then have r: "r = fst (wrap_edge cfg u s)" using hd by simp
    have "r \<notin> set (fst (map_wrap_edge cfg es ?s1))"
    proof
      assume "r \<in> set (fst (map_wrap_edge cfg es ?s1))"
      then have "Some r \<in> set (map Some (fst (map_wrap_edge cfg es ?s1)))" by simp
      then have "Some r \<in> set (map (\<lambda>e. edges_map ?s' (edgeKeyAccessor cfg e)) es)"
        by (simp only: map_wrap_edge_refs_map)
      with False show False by auto
    qed
    then have h: "edge_heap ?s' r = edge_heap ?s1 r" by (rule map_wrap_edge_heap_other)
    show ?thesis unfolding s' h using wrap_edge_heap_self[of cfg u s] e \<open>?P u\<close> r by (simp add: Let_def)
  qed
qed

lemma sweep_snapshots [simp]:
  "nodes_snapshot (sweep s) = nodes_snapshot s" "edges_snapshot (sweep s) = edges_snapshot s"
  by (simp_all add: sweep_def)

lemma reconcile_snapshots [simp]:
  "nodes_snapshot (snd (reconcile cfg nodes edges s)) = nodes_snapshot s"
  "edges_snapshot (snd (reconcile cfg nodes edges s)) = edges_snapshot s"
  by (simp_all add: reconcile_def Let_def split_beta)

lemma map_wrap_node_origs:
  "map (\<lambda>r. node_orig (node_heap (snd (map_wrap_node cfg vs i s)) r)) (fst (map_wrap_node cfg vs i s)) =
   map (\<lambda>v. Some (last (filter (\<lambda>u. nodes_map (snd (map_wrap_node cfg vs i s)) (nodeKeyAccessor cfg u) =
                                   nodes_map (snd (map_wrap_node cfg vs i s)) (nodeKeyAccessor cfg v)) vs))) vs"
proof (rule nth_equalityI)
  show "length (map (\<lambda>r. node_orig (node_heap (snd (map_wrap_node cfg vs i s)) r)) (fst (map_wrap_node cfg vs i s))) =
        length (map (\<lambda>v. Some (last (filter (\<lambda>u. nodes_map (snd (map_wrap_node cfg vs i s)) (nodeKeyAccessor cfg u) =
                                   nodes_map (snd (map_wrap_node cfg vs i s)) (nodeKeyAccessor cfg v)) vs))) vs)"
    by simp
next
  fix j
  assume "j < length (map (\<lambda>r. node_orig (node_heap (snd (map_wrap_node cfg vs i s)) r)) (fst (map_wrap_node cfg vs i s)))"
  then have j: "j < length vs" by simp
  let ?s' = "snd (map_wrap_node cfg vs i s)"
  let ?rs = "fst (map_wrap_node cfg vs i s)"
  have "map Some ?rs ! j = map (\<lambda>v. nodes_map ?s' (nodeKeyAccessor cfg v)) vs ! j"
    by (simp only: map_wrap_node_refs)
  then have r: "nodes_map ?s' (nodeKeyAccessor cfg (vs ! j)) = Some (?rs ! j)" using j by simp
  from map_wrap_node_orig[OF nth_mem[OF j] r]
  show "map (\<lambda>r. node_orig (node_heap ?s' r)) ?rs ! j =
        map (\<lambda>v. Some (last (filter (\<lambda>u. nodes_map ?s' (nodeKeyAccessor cfg u) =
                                   nodes_map ?s' (nodeKeyAccessor cfg v)) vs))) vs ! j"
    using j r by simp
qed

lemma reconcile_node_origs:
  assumes "reconcile cfg nodes edges s = ((nodes1, edges1), s')"
  shows "map (\<lambda>r. node_orig (node_heap s' r)) nodes1 =
         map (\<lambda>v. Some (last (filter (\<lambda>u. nodes_map s' (nodeKeyAccessor cfg u) =
                                         nodes_map s' (nodeKeyAccessor cfg v))
                                (order_nodes cfg (induce cfg nodes edges)))))
             (order_nodes cfg (induce cfg nodes edges))"
proof -
  let ?vs = "order_nodes cfg (induce cfg nodes edges)"
  let ?m = "map_wrap_node cfg ?vs 0 (s\<lparr>keep_node := {}, keep_edge := {}\<rparr>)"
  have n1: "nodes1 = fst ?m" and h: "node_heap s' = node_heap (snd ?m)"
    and m: "nodes_map s' = nodes_map (snd ?m) |` keep_node (snd ?m)"
    using assms by (auto simp: reconcile_def Let_def split_beta sweep_def)
  have k: "keep_node (snd ?m) = nodeKeyAccessor cfg ` set ?vs" by (simp add: map_wrap_node_keep)
  have eq: "nodes_map s' (nodeKeyAccessor cfg u) = nodes_map (snd ?m) (nodeKeyAccessor cfg u)"
    if "u \<in> set ?vs" for u
    using that unfolding m k by simp
  have "map (\<lambda>v. Some (last (filter (\<lambda>u. nodes_map s' (nodeKeyAccessor cfg u) =
                                         nodes_map s' (nodeKeyAccessor cfg v)) ?vs))) ?vs =
        map (\<lambda>v. Some (last (filter (\<lambda>u. nodes_map (snd ?m) (nodeKeyAccessor cfg u) =
                                         nodes_map (snd ?m) (nodeKeyAccessor cfg v)) ?vs))) ?vs"
  proof (rule map_cong[OF refl])
    fix v assume v: "v \<in> set ?vs"
    have "filter (\<lambda>u. nodes_map s' (nodeKeyAccessor cfg u) = nodes_map s' (nodeKeyAccessor cfg v)) ?vs =
          filter (\<lambda>u. nodes_map (snd ?m) (nodeKeyAccessor cfg u) = nodes_map (snd ?m) (nodeKeyAccessor cfg v)) ?vs"
    proof (rule filter_cong[OF refl])
      fix u assume "u \<in> set ?vs"
      from eq[OF this] eq[OF v]
      show "(nodes_map s' (nodeKeyAccessor cfg u) = nodes_map s' (nodeKeyAccessor cfg v)) =
            (nodes_map (snd ?m) (nodeKeyAccessor cfg u) = nodes_map (snd ?m) (nodeKeyAccessor cfg v))"
        by simp
    qed
    then show "Some (last (filter (\<lambda>u. nodes_map s' (nodeKeyAccessor cfg u) = nodes_map s' (nodeKeyAccessor cfg v)) ?vs)) =
          Some (last (filter (\<lambda>u. nodes_map (snd ?m) (nodeKeyAccessor cfg u) = nodes_map (snd ?m) (nodeKeyAccessor cfg v)) ?vs))"
      by simp
  qed
  then show ?thesis unfolding n1 h using map_wrap_node_origs[of cfg ?vs 0 "s\<lparr>keep_node := {}, keep_edge := {}\<rparr>"]
    by simp
qed

lemma reconcile_edge_origs:
  assumes "reconcile cfg nodes edges s = ((nodes1, edges1), s')"
  shows "map (\<lambda>r. edge_orig (edge_heap s' r)) edges1 =
         map (\<lambda>e. Some (last_with (edgeKeyAccessor cfg) (order_edges cfg edges) e))
           (filter (\<lambda>e. sourceAccessor cfg (last_with (edgeKeyAccessor cfg) (order_edges cfg edges) e)
                          \<in> nodeKeyAccessor cfg ` set (induce cfg nodes edges) \<and>
                        targetAccessor cfg (last_with (edgeKeyAccessor cfg) (order_edges cfg edges) e)
                          \<in> nodeKeyAccessor cfg ` set (induce cfg nodes edges))
              (order_edges cfg edges))"
proof -
  let ?vs = "order_nodes cfg (induce cfg nodes edges)"
  let ?s2 = "sweep (snd (map_wrap_node cfg ?vs 0 (s\<lparr>keep_node := {}, keep_edge := {}\<rparr>)))"
  let ?es = "order_edges cfg edges"
  let ?m = "map_wrap_edge cfg ?es ?s2"
  let ?D = "nodeKeyAccessor cfg ` set (induce cfg nodes edges)"
  let ?L = "last_with (edgeKeyAccessor cfg) ?es"
  have s': "s' = snd ?m" and e1: "edges1 = filter (has_endpoints s') (fst ?m)"
    using assms by (auto simp: reconcile_def Let_def split_beta)
  have dom2: "dom (nodes_map ?s2) = ?D"
    by (simp add: sweep_def map_wrap_node_keep map_wrap_node_dom Int_absorb1)
  have "edges_inj ?s2" by (simp add: edges_inj_def sweep_def)
  then have inj: "edges_inj s'" unfolding s' by (rule map_wrap_edge_inj)
  define rho where "rho e = the (edges_map s' (edgeKeyAccessor cfg e))" for e
  have refs: "map Some (fst ?m) = map (\<lambda>e. edges_map s' (edgeKeyAccessor cfg e)) ?es"
    unfolding s' by (rule map_wrap_edge_refs_map)
  have some: "edges_map s' (edgeKeyAccessor cfg e) = Some (rho e)" if "e \<in> set ?es" for e
  proof -
    from that obtain j where j: "j < length ?es" "?es ! j = e" by (metis in_set_conv_nth)
    have "length (fst ?m) = length ?es" using refs by (metis length_map)
    with j refs have "edges_map s' (edgeKeyAccessor cfg e) = Some (fst ?m ! j)"
      by (metis nth_map)
    then show ?thesis by (simp add: rho_def)
  qed
  have rs: "fst ?m = map rho ?es"
  proof -
    have "map Some (fst ?m) = map Some (map rho ?es)"
      unfolding refs by (simp add: some)
    then show ?thesis
      using inj_map_eq_map[of Some "fst ?m" "map rho ?es"] by (simp del: map_map)
  qed
  have cls: "filter (\<lambda>u. edges_map s' (edgeKeyAccessor cfg u) = Some (rho e)) ?es =
             filter (\<lambda>u. edgeKeyAccessor cfg u = edgeKeyAccessor cfg e) ?es" if "e \<in> set ?es" for e
  proof (rule filter_cong[OF refl])
    fix u assume "u \<in> set ?es"
    show "(edges_map s' (edgeKeyAccessor cfg u) = Some (rho e)) =
          (edgeKeyAccessor cfg u = edgeKeyAccessor cfg e)"
      using some[OF that] inj unfolding edges_inj_def by metis
  qed
  have heap: "edge_orig (edge_heap s' (rho e)) = Some (?L e) \<and>
              edge_source (edge_heap s' (rho e)) = nodes_map ?s2 (sourceAccessor cfg (?L e)) \<and>
              edge_target (edge_heap s' (rho e)) = nodes_map ?s2 (targetAccessor cfg (?L e))"
    if "e \<in> set ?es" for e
    using map_wrap_edge_last[OF that, of cfg ?s2 "rho e"] some[OF that] cls[OF that]
    unfolding s' by (simp add: Let_def last_with_def)
  have he: "has_endpoints s' (rho e) =
        (sourceAccessor cfg (?L e) \<in> ?D \<and> targetAccessor cfg (?L e) \<in> ?D)" if "e \<in> set ?es" for e
    using heap[OF that] dom2 by (auto simp: has_endpoints_def)
  have "map (\<lambda>r. edge_orig (edge_heap s' r)) edges1 =
        map (\<lambda>e. edge_orig (edge_heap s' (rho e))) (filter (\<lambda>e. has_endpoints s' (rho e)) ?es)"
    unfolding e1 rs by (simp add: filter_map comp_def)
  also have "filter (\<lambda>e. has_endpoints s' (rho e)) ?es =
        filter (\<lambda>e. sourceAccessor cfg (?L e) \<in> ?D \<and> targetAccessor cfg (?L e) \<in> ?D) ?es"
    by (rule filter_cong[OF refl]) (simp add: he)
  also have "map (\<lambda>e. edge_orig (edge_heap s' (rho e)))
               (filter (\<lambda>e. sourceAccessor cfg (?L e) \<in> ?D \<and> targetAccessor cfg (?L e) \<in> ?D) ?es) =
             map (\<lambda>e. Some (?L e))
               (filter (\<lambda>e. sourceAccessor cfg (?L e) \<in> ?D \<and> targetAccessor cfg (?L e) \<in> ?D) ?es)"
    by (rule map_cong[OF refl]) (simp add: heap)
  finally show ?thesis .
qed

lemma redraw_snapshot_taken:
  assumes "redraw h cfg now nodes edges s = Inr (effs, s')" and "\<not> layoutUnchanged cfg"
  shows "nodes_snapshot s' = Some (taken_nodes cfg nodes edges s) \<and>
         edges_snapshot s' = Some (taken_edges cfg nodes edges s)"
proof -
  let ?r = "reconcile cfg nodes edges (pre_redraw cfg s)"
  let ?s2 = "snd (snapshot cfg (fst (fst ?r)) (snd (fst ?r)) (snd ?r))"
  obtain s3 where s3: "(if parallelEdgeOffset cfg \<noteq> 0
       then mark_parallel (snd (fst ?r)) (em_init (length (fst (fst ?r)))) ?s2 else Inr ?s2) = Inr s3"
    and s': "s' = s3\<lparr>startTime := None\<rparr> \<or> s' = s3\<lparr>startTime := Some now, end_listener := True\<rparr>"
    using assms(1)
    by (auto simp: redraw_def pre_redraw_def Let_def split_beta split: sum.splits if_splits)
  have "nodes_snapshot s3 = nodes_snapshot ?s2 \<and> edges_snapshot s3 = edges_snapshot ?s2"
    using s3 mark_parallel_frame by (auto split: if_splits)
  moreover have "nodes_snapshot ?s2 = Some (taken_nodes cfg nodes edges s)"
    "edges_snapshot ?s2 = Some (taken_edges cfg nodes edges s)"
    using assms(2) by (simp_all add: snapshot_def taken_nodes_def taken_edges_def Let_def split_beta)
  ultimately show ?thesis using s' by auto
qed

lemma redraw_skips:
  assumes "redraw h cfg now nodes edges s = Inr (effs, s')" and "\<not> layoutUnchanged cfg"
      and "nodes_snapshot s = Some (taken_nodes cfg nodes edges s)"
      and "edges_snapshot s = Some (taken_edges cfg nodes edges s)"
  shows "effs = EngineStop # (if initLayoutOnRedraw cfg then [InitLayout] else []) @ [DispatchEnd]"
proof -
  let ?r = "reconcile cfg nodes edges (pre_redraw cfg s)"
  have "fst (snapshot cfg (fst (fst ?r)) (snd (fst ?r)) (snd ?r))"
    using assms(2,3,4)
    by (simp add: snapshot_def taken_nodes_def taken_edges_def Let_def split_beta)
  then show ?thesis
    using assms(1)
    by (auto simp: redraw_def pre_redraw_def Let_def split_beta split: sum.splits if_splits)
qed

lemma reconcile_again:
  assumes "nodes_map t = nodes_map (snd (reconcile cfg nodes edges s))"
  shows "nodes_map (snd (reconcile cfg nodes edges t)) = nodes_map t"
proof -
  let ?vs = "order_nodes cfg (induce cfg nodes edges)"
  let ?t0 = "t\<lparr>keep_node := {}, keep_edge := {}\<rparr>"
  have d: "dom (nodes_map t) = nodeKeyAccessor cfg ` set ?vs"
    using assms reconcile_nodes_dom[of cfg nodes edges s] by simp
  then have p: "\<forall>v\<in>set ?vs. nodeKeyAccessor cfg v \<in> dom (nodes_map ?t0)" by simp
  have "nodes_map (snd (map_wrap_node cfg ?vs 0 ?t0)) = nodes_map t"
    using map_wrap_node_present[OF p] by simp
  moreover have "keep_node (snd (map_wrap_node cfg ?vs 0 ?t0)) = dom (nodes_map t)"
    using d by (simp add: map_wrap_node_keep)
  moreover have "nodes_map t |` dom (nodes_map t) = nodes_map t"
    by (auto simp: restrict_map_def fun_eq_iff domIff)
  ultimately show ?thesis
    by (simp add: reconcile_def Let_def split_beta sweep_def)
qed

lemma taken_edges_same: "taken_edges cfg nodes edges t = taken_edges cfg nodes edges s"
proof -
  have "map (\<lambda>r. edge_orig (edge_heap (snd (reconcile cfg nodes edges u)) r))
            (snd (fst (reconcile cfg nodes edges u))) =
        map (\<lambda>e. Some (last_with (edgeKeyAccessor cfg) (order_edges cfg edges) e))
           (filter (\<lambda>e. sourceAccessor cfg (last_with (edgeKeyAccessor cfg) (order_edges cfg edges) e)
                          \<in> nodeKeyAccessor cfg ` set (induce cfg nodes edges) \<and>
                        targetAccessor cfg (last_with (edgeKeyAccessor cfg) (order_edges cfg edges) e)
                          \<in> nodeKeyAccessor cfg ` set (induce cfg nodes edges))
              (order_edges cfg edges))" for u
    by (rule reconcile_edge_origs[of cfg nodes edges u "fst (fst (reconcile cfg nodes edges u))"]) simp
  then show ?thesis by (simp add: taken_edges_def split_beta)
qed

lemma taken_nodes_same:
  assumes "nodes_map (snd (reconcile cfg nodes edges (pre_redraw cfg t))) =
           nodes_map (snd (reconcile cfg nodes edges (pre_redraw cfg s)))"
  shows "taken_nodes cfg nodes edges t = taken_nodes cfg nodes edges s"
proof -
  have "map (\<lambda>r. node_orig (node_heap (snd (reconcile cfg nodes edges u)) r))
            (fst (fst (reconcile cfg nodes edges u))) =
        map (\<lambda>v. Some (last (filter (\<lambda>w. nodes_map (snd (reconcile cfg nodes edges u)) (nodeKeyAccessor cfg w) =
                                         nodes_map (snd (reconcile cfg nodes edges u)) (nodeKeyAccessor cfg v))
                                (order_nodes cfg (induce cfg nodes edges)))))
             (order_nodes cfg (induce cfg nodes edges))" for u
    by (rule reconcile_node_origs[of cfg nodes edges u _ "snd (fst (reconcile cfg nodes edges u))"]) simp
  then show ?thesis using assms by (simp add: taken_nodes_def split_beta)
qed

lemma dispatched_append [simp]: "dispatched (xs @ ys) = dispatched xs + dispatched ys"
  by (simp add: dispatched_def)

lemma dispatched_listen:
  "dispatched (listen cfg s ev) =
     (if ev = End \<and> end_listener s then 1 else 0) + (if over_limit cfg s ev then 1 else 0)"
  by (cases ev) (auto simp: on_tick_def on_end_def over_limit_def dispatched_def split: option.splits)

lemma dispatched_deliver:
  "dispatched (deliver cfg s evs) =
     (if end_listener s then length (filter (\<lambda>ev. ev = End) evs) else 0) +
     length (filter (over_limit cfg s) evs)"
proof (induction evs)
  case Nil
  then show ?case by (simp add: deliver_def dispatched_def)
next
  case (Cons ev evs)
  have "deliver cfg s (ev # evs) = listen cfg s ev @ deliver cfg s evs"
    by (simp add: deliver_def)
  then show ?case using Cons by (auto simp: dispatched_listen)
qed

lemmas eval_more = eval_defs fixing_config_def node_pin_def engine_moves_def limited_config_def

text \<open>
  Two redraws of the same node and edge records with \<open>layoutUnchanged\<close> false, whatever
  has happened to the wrappers in between (the maps and the snapshots apart): all that
  the second redraw itself does to its surroundings is to stop the engine (and make a new
  one when \<open>initLayoutOnRedraw\<close> is set) and to dispatch \<open>end\<close>; the engine is not
  started; and every wrapper that is not the wrapper of a record for which
  \<open>nodeFixedAccessor\<close> returns a truthy value has the \<open>x\<close> and \<open>y\<close> it had before the
  second redraw.
\<close>

lemma redraw_unchanged_skips:
  assumes "redraw h cfg t1 nodes edges s = Inr (effs1, s1)"
      and "\<not> layoutUnchanged cfg"
      and "nodes_map s1' = nodes_map s1"
      and "nodes_snapshot s1' = nodes_snapshot s1" and "edges_snapshot s1' = edges_snapshot s1"
      and "redraw h' cfg t2 nodes edges s1' = Inr (effs2, s2)"
  shows "effs2 = EngineStop # (if initLayoutOnRedraw cfg then [InitLayout] else []) @ [DispatchEnd] \<and>
         dispatched effs2 = 1 \<and>
         (\<forall>ns ls cs. EngineStart ns ls cs \<notin> set effs2) \<and>
         (\<forall>r. (\<forall>v\<in>set nodes. nodes_map s1 (nodeKeyAccessor cfg v) = Some r \<longrightarrow> fixed_of cfg v = None) \<longrightarrow>
              node_x (node_heap s2 r) = node_x (node_heap s1' r) \<and>
              node_y (node_heap s2 r) = node_y (node_heap s1' r))"
proof -
  let ?vs = "order_nodes cfg (induce cfg nodes edges)"
  let ?t = "pre_redraw cfg s1'"
  note rr1 = redraw_reconciled[OF assms(1)]
  have m1: "nodes_map ?t = nodes_map (snd (reconcile cfg nodes edges (pre_redraw cfg s)))"
    using rr1 assms(3) by simp
  from reconcile_again[OF this] have m2: "nodes_map (snd (reconcile cfg nodes edges ?t)) = nodes_map ?t" .
  have tn: "taken_nodes cfg nodes edges s1' = taken_nodes cfg nodes edges s"
    by (rule taken_nodes_same) (rule trans[OF m2 m1])
  have te: "taken_edges cfg nodes edges s1' = taken_edges cfg nodes edges s"
    by (rule taken_edges_same)
  from redraw_snapshot_taken[OF assms(1,2)] assms(4,5) tn te
  have sn: "nodes_snapshot s1' = Some (taken_nodes cfg nodes edges s1')"
       "edges_snapshot s1' = Some (taken_edges cfg nodes edges s1')" by simp_all
  from redraw_skips[OF assms(6,2) sn]
  have e2: "effs2 = EngineStop # (if initLayoutOnRedraw cfg then [InitLayout] else []) @ [DispatchEnd]" .
  then have 1: "dispatched effs2 = 1" and 2: "\<forall>ns ls cs. EngineStart ns ls cs \<notin> set effs2"
    by (auto simp: dispatched_def)
  have 3: "node_x (node_heap s2 r) = node_x (node_heap s1' r) \<and>
           node_y (node_heap s2 r) = node_y (node_heap s1' r)"
    if nf: "\<forall>v\<in>set nodes. nodes_map s1 (nodeKeyAccessor cfg v) = Some r \<longrightarrow> fixed_of cfg v = None" for r
  proof -
    let ?t0 = "?t\<lparr>keep_node := {}, keep_edge := {}\<rparr>"
    have h2: "node_heap s2 = node_heap (snd (map_wrap_node cfg ?vs 0 ?t0))"
      using redraw_reconciled[OF assms(6)] by (simp add: reconcile_def Let_def split_beta)
    have d: "dom (nodes_map ?t) = nodeKeyAccessor cfg ` set ?vs"
      using m1 reconcile_nodes_dom[of cfg nodes edges "pre_redraw cfg s"] by simp
    then have p1: "\<forall>v\<in>set ?vs. nodeKeyAccessor cfg v \<in> dom (nodes_map ?t0)" by simp
    have p2: "\<forall>v\<in>set ?vs. nodes_map ?t0 (nodeKeyAccessor cfg v) = Some r \<longrightarrow> fixed_of cfg v = None"
      using nf assms(3) set_induce[of cfg nodes edges] by auto
    from map_wrap_node_xy[OF p1 p2, of 0] show ?thesis unfolding h2 by simp
  qed
  from e2 1 2 3 show ?thesis by blast
qed

section \<open>Lemmas about what the engine is started with\<close>




lemma mark_parallel_orig:
  "mark_parallel es em s = Inr s' \<Longrightarrow> edge_orig (edge_heap s' e) = edge_orig (edge_heap s e)"
proof (induction es arbitrary: em s)
  case Nil
  then show ?case by simp
next
  case (Cons x es)
  then show ?case
    by (fastforce split: option.splits sum.splits prod.splits)
qed

lemma reconcile_listeners [simp]:
  "startTime (snd (reconcile cfg nodes edges s)) = startTime s"
  "end_listener (snd (reconcile cfg nodes edges s)) = end_listener s"
  by (simp_all add: reconcile_def Let_def split_beta sweep_def)

lemma redraw_engine_start:
  assumes "redraw h cfg now nodes edges s = Inr (effs, s')"
      and "reconcile cfg nodes edges (pre_redraw cfg s) = ((nodes1, edges1), s1)"
      and "EngineStart ns ls cons \<in> set effs"
  shows "ns = nodes1 \<and>
         engine_input h cfg nodes1 edges1
           (s'\<lparr>startTime := startTime s, end_listener := end_listener (pre_redraw cfg s)\<rparr>) = Inr (ls, cons) \<and>
         nodes_map s' = nodes_map s1 \<and> node_heap s' = node_heap s1 \<and>
         (\<forall>e. edge_orig (edge_heap s' e) = edge_orig (edge_heap s1 e))"
proof -
  let ?s2 = "snd (snapshot cfg nodes1 edges1 s1)"
  from assms obtain s3 where
    s3: "(if parallelEdgeOffset cfg \<noteq> 0
          then mark_parallel edges1 (em_init (length nodes1)) ?s2 else Inr ?s2) = Inr s3"
    and ei: "engine_input h cfg nodes1 edges1 s3 = Inr (ls, cons)"
    and ns: "ns = nodes1"
    and s': "s' = s3\<lparr>startTime := Some now, end_listener := True\<rparr>"
    by (auto simp: redraw_def pre_redraw_def Let_def split_beta split: sum.splits if_splits)
  have s1: "s1 = snd (reconcile cfg nodes edges (pre_redraw cfg s))" using assms(2) by simp
  have f: "nodes_map s3 = nodes_map ?s2 \<and> node_heap s3 = node_heap ?s2 \<and>
        startTime s3 = startTime ?s2 \<and> end_listener s3 = end_listener ?s2 \<and>
        (\<forall>e. edge_orig (edge_heap s3 e) = edge_orig (edge_heap ?s2 e))"
    using s3 mark_parallel_frame mark_parallel_orig by (auto split: if_splits)
  then have st: "startTime s3 = startTime s" "end_listener s3 = end_listener (pre_redraw cfg s)"
    by (simp_all add: s1 pre_redraw_def)
  have "s'\<lparr>startTime := startTime s, end_listener := end_listener (pre_redraw cfg s)\<rparr> = s3"
    unfolding s' using st by simp
  with ei ns f s' show ?thesis by simp
qed

lemma collect_all2:
  "collect (map f xs) = Inr ys \<Longrightarrow> list_all2 (\<lambda>x y. f x = Inr y) xs ys"
  by (induction xs arbitrary: ys) (auto split: sum.splits)

lemma translate_kind:
  "translate_constraint s c = Inr t \<Longrightarrow> is_ordering t = is_ordering c \<and> is_circle t = is_circle c"
  by (cases c) (auto split: sum.splits)

lemma filter_all2:
  "list_all2 R xs ys \<Longrightarrow> (\<And>x y. R x y \<Longrightarrow> P x = Q y) \<Longrightarrow>
     list_all2 R (filter P xs) (filter Q ys)"
  by (induction rule: list_all2_induct) auto

lemma translated_filters:
  assumes "translate_constraints s cs0 = Inr tcs"
  shows "list_all2 (\<lambda>c t. translate_constraint s c = Inr t) (filter is_ordering cs0) (filter is_ordering tcs)"
    and "list_all2 (\<lambda>c t. translate_constraint s c = Inr t) (filter is_circle cs0) (filter is_circle tcs)"
    and "length (filter (\<lambda>c. \<not> is_circle c \<and> \<not> is_ordering c) tcs) =
         length (filter (\<lambda>c. \<not> is_circle c \<and> \<not> is_ordering c) cs0)"
proof -
  from assms have a: "list_all2 (\<lambda>c t. translate_constraint s c = Inr t) cs0 tcs"
    unfolding translate_constraints_def by (rule collect_all2)
  show "list_all2 (\<lambda>c t. translate_constraint s c = Inr t) (filter is_ordering cs0) (filter is_ordering tcs)"
    by (rule filter_all2[OF a]) (simp add: translate_kind)
  show "list_all2 (\<lambda>c t. translate_constraint s c = Inr t) (filter is_circle cs0) (filter is_circle tcs)"
    by (rule filter_all2[OF a]) (simp add: translate_kind)
  have "list_all2 (\<lambda>c t. translate_constraint s c = Inr t)
          (filter (\<lambda>c. \<not> is_circle c \<and> \<not> is_ordering c) cs0)
          (filter (\<lambda>c. \<not> is_circle c \<and> \<not> is_ordering c) tcs)"
    by (rule filter_all2[OF a]) (simp add: translate_kind)
  then show "length (filter (\<lambda>c. \<not> is_circle c \<and> \<not> is_ordering c) tcs) =
         length (filter (\<lambda>c. \<not> is_circle c \<and> \<not> is_ordering c) cs0)"
    by (simp add: list_all2_lengthD)
qed


lemma translate_circle_indices:
  assumes "translate_constraint s (Circle ks d) = Inr t"
  shows "\<exists>is. t = Circle is d \<and> length is = length ks \<and>
           (\<forall>i<length ks. \<exists>r. nodes_map s (ks ! i) = Some r \<and>
               node_index (node_heap s r) = Some (is ! i))"
proof -
  from translate_circle[OF assms] obtain "is" where
    i: "t = Circle is d" "length is = length ks" "map Inr is = map (node_index_of s) ks" by blast
  have "\<exists>r. nodes_map s (ks ! i) = Some r \<and> node_index (node_heap s r) = Some (is ! i)"
    if "i < length ks" for i
  proof -
    from i(3) that i(2) have "node_index_of s (ks ! i) = Inr (is ! i)"
      by (metis nth_map)
    then show ?thesis
      by (auto simp: node_index_of_def index_of_def split: option.splits)
  qed
  with i show ?thesis by blast
qed

lemma ring_radius_formula:
  "2 \<le> n \<Longrightarrow> ring_radius cfg d n =
     Some ((case d of None \<Rightarrow> 4 * baseLength cfg
                    | Some x \<Rightarrow> if x = 0 then 4 * baseLength cfg else x) /
           (2 * sin (pi / real n)))"
  by (simp add: ring_radius_def mult.commute split: option.splits)

lemma ring_radius_approx:
  assumes "baseLength cfg = 30"
  shows "\<exists>x. ring_radius cfg None 4 = Some x \<and> \<bar>x - 8485 / 100\<bar> < 1 / 100"
proof -
  have "sqrt 2 * sqrt 2 = 2" by simp
  then have "120 / sqrt 2 = 60 * sqrt 2"
    by (simp add: field_simps)
  then have "ring_radius cfg None 4 = Some (60 * sqrt 2)"
    using assms by (simp add: ring_radius_def sin_45)
  moreover have "\<bar>60 * sqrt 2 - 8485 / 100\<bar> < 1 / 100"
    using sqrt2_bounds by (simp add: abs_less_iff)
  ultimately show ?thesis by blast
qed

lemma reconcile_names:
  assumes "reconcile cfg nodes edges s = ((nodes1, edges1), s1)" and "i < length nodes1"
  shows "\<exists>v. node_orig (node_heap s1 (nodes1 ! i)) = Some v"
proof -
  let ?vs = "order_nodes cfg (induce cfg nodes edges)"
  let ?G = "\<lambda>v. Some (last (filter (\<lambda>u. nodes_map s1 (nodeKeyAccessor cfg u) =
                                         nodes_map s1 (nodeKeyAccessor cfg v)) ?vs))"
  note eq = reconcile_node_origs[OF assms(1)]
  have "length (map (\<lambda>r. node_orig (node_heap s1 r)) nodes1) = length (map ?G ?vs)"
    by (simp only: eq)
  then have l: "i < length ?vs" using assms(2) by simp
  have "map (\<lambda>r. node_orig (node_heap s1 r)) nodes1 ! i = map ?G ?vs ! i"
    by (simp only: eq)
  then have "node_orig (node_heap s1 (nodes1 ! i)) = ?G (?vs ! i)"
    using assms(2) l by simp
  then show ?thesis by blast
qed

lemma is_layout_orig:
  "is_layout cfg s e = (\<exists>kv. edge_orig (edge_heap s e) = Some kv \<and> edgeIsLayoutAccessor cfg kv)"
  by (simp add: is_layout_def split: option.splits)

lemmas eval_all = redraw_def reconcile_def default_config_def node_a_def node_b_def node_c_def node_d_def
    edge_ab_def edge_ab_loose_def initial_chart_def chart_d_def pre_redraw_def
    induce_def order_nodes_def order_edges_def wrap_node_def wrap_edge_def sweep_def has_endpoints_def
    empty_wnode_def empty_wedge_def restrict_map_def snapshot_def em_init_def bump_em_def endpoint_indices_def
    engine_input_def translate_constraints_def is_layout_def node_index_of_def index_of_def
    namef_def quicksort_by_def order_key_def rank_def depth_def Let_def

lemma ring_radius_four:
  "ring_radius default_config None 4 = Some (60 * sqrt 2)"
  "ring_radius default_config (Some 0) 4 = Some (60 * sqrt 2)"
proof -
  have "sqrt 2 * sqrt 2 = 2" by simp
  then have "120 / sqrt 2 = 60 * sqrt 2"
    by (simp add: field_simps)
  then show "ring_radius default_config None 4 = Some (60 * sqrt 2)"
    "ring_radius default_config (Some 0) 4 = Some (60 * sqrt 2)"
    by (simp_all add: ring_radius_def sin_45 default_config_def)
qed

lemma four: "Suc (Suc (Suc (Suc 0))) = 4"
  by simp




lemma circle_redraw_eval:
  "case redraw circle_hooks default_config 0 [node_a, node_b, node_c, node_d] [edge_ab, edge_ab_loose] chart_d of
     Inl e \<Rightarrow> False
   | Inr (effs, s') \<Rightarrow>
       effs = [EngineStop, EngineStart [1, 2, 3, 0]
                 [EdgeLink 0,
                  WheelLink \<lparr>ie_sourcename = ''a'', ie_targetname = ''b'', ie_distance = 60 * sqrt 2\<rparr> (Some 1) (Some 2),
                  WheelLink \<lparr>ie_sourcename = ''b'', ie_targetname = ''c'', ie_distance = 60 * sqrt 2\<rparr> (Some 2) (Some 3),
                  WheelLink \<lparr>ie_sourcename = ''c'', ie_targetname = ''d'', ie_distance = 60 * sqrt 2\<rparr> (Some 3) (Some 0),
                  WheelLink \<lparr>ie_sourcename = ''d'', ie_targetname = ''a'', ie_distance = 60 * sqrt 2\<rparr> (Some 0) (Some 1)]
                 []]"
  using ring_radius_four[unfolded default_config_def]
  by (simp add: eval_all circle_hooks_def rim_def four)

lemma abcd_edges1:
  "fst (reconcile default_config [node_a, node_b, node_c, node_d] [edge_ab, edge_ab_loose]
     (pre_redraw default_config chart_d)) = ([1, 2, 3, 0], [0, 1])"
  by (simp add: eval_all)

section \<open>The claims\<close>

text \<open>
  C10. For every node record, \<open>wrap_node\<close> sets the wrapper's \<open>fixed\<close> to false when
  \<open>nodeFixedAccessor\<close> is unset or returns a falsy value for the record, and to true when
  it returns a truthy value; in that case the wrapper's \<open>x\<close> and \<open>y\<close> become the
  record's own \<open>x\<close> and \<open>y\<close>, and the coordinate that the accessor returned is not
  read: any other coordinate in its place gives the same wrapper and the same state.
\<close>

theorem wrap_node_fixed:
  assumes "wrap_node cfg v i s = (r, s')"
  shows "(case nodeFixedAccessor cfg of
            None \<Rightarrow> node_fixed (node_heap s' r) = Some False
          | Some f \<Rightarrow>
             (case f v of
                None \<Rightarrow> node_fixed (node_heap s' r) = Some False
              | Some c \<Rightarrow>
                  node_fixed (node_heap s' r) = Some True \<and>
                  node_x (node_heap s' r) = nx v \<and> node_y (node_heap s' r) = ny v \<and>
                  (\<forall>c'. wrap_node (cfg\<lparr>nodeFixedAccessor :=
                           Some (\<lambda>u. if u = v then Some c' else f u)\<rparr>) v i s = (r, s'))))"
  using assms
  by (auto simp: wrap_node_def Let_def split: option.splits prod.splits)

theorem wrap_node_fixed_witness:
  "wrap_node fixing_config node_pin 0 initial_chart =
     (0, snd (wrap_node fixing_config node_pin 0 initial_chart)) \<and>
   node_fixed (node_heap (snd (wrap_node fixing_config node_pin 0 initial_chart)) 0) = Some True \<and>
   node_x (node_heap (snd (wrap_node fixing_config node_pin 0 initial_chart)) 0) = None \<and>
   node_y (node_heap (snd (wrap_node fixing_config node_pin 0 initial_chart)) 0) = None"
proof -
  have w: "wrap_node fixing_config node_pin 0 initial_chart =
      (0, snd (wrap_node fixing_config node_pin 0 initial_chart))"
    by (simp add: wrap_node_def fixing_config_def node_pin_def initial_chart_def
        default_config_def Let_def)
  show ?thesis
    using w wrap_node_fixed[OF w] by (simp add: fixing_config_def node_pin_def)
qed

text \<open>
  C8. When a redraw has completed, a key that no node record of that redraw has is not
  in \<open>_nodes\<close>, and a key that no edge record has is not in \<open>_edges\<close>.
\<close>

theorem redraw_drops_absent_keys:
  assumes "redraw h cfg now nodes edges s = Inr (effs, s')"
  shows "(k \<notin> nodeKeyAccessor cfg ` set nodes \<longrightarrow> nodes_map s' k = None) \<and>
         (k \<notin> edgeKeyAccessor cfg ` set edges \<longrightarrow> edges_map s' k = None)"
proof -
  let ?r = "snd (reconcile cfg nodes edges (pre_redraw cfg s))"
  have n: "dom (nodes_map s') = nodeKeyAccessor cfg ` set (induce cfg nodes edges)"
    using redraw_reconciled[OF assms] reconcile_nodes_dom by simp
  have e: "dom (edges_map s') = edgeKeyAccessor cfg ` set edges"
    using redraw_reconciled[OF assms] reconcile_edges_dom by simp
  have "nodeKeyAccessor cfg ` set (induce cfg nodes edges) \<subseteq> nodeKeyAccessor cfg ` set nodes"
    using set_induce by blast
  with n e show ?thesis by (metis domIff subsetD)
qed

theorem redraw_drops_absent_keys_witness:
  "case redraw no_hooks default_config 0 [node_a, node_b] [edge_ab] initial_chart of
     Inl e \<Rightarrow> False
   | Inr (effs1, s1) \<Rightarrow>
       nodes_map s1 ''b'' \<noteq> None \<and> edges_map s1 ''e'' \<noteq> None \<and>
       (case redraw no_hooks default_config 1 [node_a] [] s1 of
          Inl e \<Rightarrow> False
        | Inr (effs2, s2) \<Rightarrow>
            nodes_map s2 ''a'' \<noteq> None \<and> nodes_map s2 ''b'' = None \<and> edges_map s2 ''e'' = None)"
proof -
  have nc: "\<And>ns es t. constrain no_hooks ns es t = []" by (simp add: no_hooks_def)
  obtain effs1 s1 where r1: "redraw no_hooks default_config 0 [node_a, node_b] [edge_ab] initial_chart = Inr (effs1, s1)"
    using redraw_total[OF nc] by blast
  obtain effs2 s2 where r2: "redraw no_hooks default_config 1 [node_a] [] s1 = Inr (effs2, s2)"
    using redraw_total[OF nc] by blast
  have "dom (nodes_map s1) = {''a'', ''b''}" "dom (edges_map s1) = {''e''}"
    using redraw_reconciled[OF r1]
    by (auto simp: reconcile_nodes_dom reconcile_edges_dom induce_def default_config_def node_a_def node_b_def edge_ab_def)
  then have a: "nodes_map s1 ''b'' \<noteq> None \<and> edges_map s1 ''e'' \<noteq> None" by auto
  have "dom (nodes_map s2) = {''a''}"
    using redraw_reconciled[OF r2]
    by (auto simp: reconcile_nodes_dom induce_def default_config_def node_a_def)
  then have b: "nodes_map s2 ''a'' \<noteq> None" by auto
  have c: "nodes_map s2 ''b'' = None \<and> edges_map s2 ''e'' = None"
    using redraw_drops_absent_keys[OF r2, of "''b''"] redraw_drops_absent_keys[OF r2, of "''e''"]
    by (simp add: default_config_def node_a_def)
  show ?thesis using r1 r2 a b c by simp
qed

text \<open>
  C1 (the code departs from the claim). Two redraws of the same two nodes and the same
  edge: the node \<open>a\<close> keeps its wrapper, the object 0, but the edge gets a new wrapper,
  the object 1 in place of the object 0. The sweep of \<open>_edges\<close> runs before
  \<open>edges.map(wrap_edge)\<close> has filled \<open>keep_edge\<close>, so it deletes every edge wrapper.
\<close>

theorem edge_wrapper_recreated:
  "case redraw no_hooks default_config 0 [node_a, node_b] [edge_ab] initial_chart of
     Inl e \<Rightarrow> False
   | Inr (effs1, s1) \<Rightarrow>
       (case redraw no_hooks default_config 1 [node_a, node_b] [edge_ab] s1 of
          Inl e \<Rightarrow> False
        | Inr (effs2, s2) \<Rightarrow>
            nodes_map s1 ''a'' = Some 0 \<and> nodes_map s2 ''a'' = Some 0 \<and>
            edges_map s1 ''e'' = Some 0 \<and> edges_map s2 ''e'' = Some 1)"
  by (simp add: eval_defs)

text \<open>
  C9. A port that the second loop of \<open>place_ports\<close> puts in \<open>outside\<close> has a direction
  and bounds, the direction not between the bounds. Its direction is replaced by
  \<open>clip_angle\<close> of it, which is one of the two bounds, the one at the smaller absolute
  normalized difference from the direction (the second bound when the two differences
  are equal), and the port is pushed on \<open>inside\<close>. The witness is the port with the bounds
  from 0 to \<open>\<pi>/2\<close> and the direction \<open>\<pi>\<close>: it is clipped to \<open>\<pi>/2\<close>.
\<close>

theorem outside_port_clipped:
  assumes "p \<in> set (map (assign_vec a n) nports)" and "classify a p = Outside"
  shows "\<exists>theta lo hi. port_theta p = Some theta \<and> port_bounds p = Some (lo, hi) \<and>
           \<not> between_angles a theta lo hi \<and>
           clip_port a p \<in> set (inside (place_node_ports a n nports)) \<and>
           port_theta (clip_port a p) = Some (clip_angle a theta lo hi) \<and>
           (clip_angle a theta lo hi = lo \<or> clip_angle a theta lo hi = hi) \<and>
           \<bar>norm_angle a (theta - clip_angle a theta lo hi)\<bar> =
             min \<bar>norm_angle a (theta - lo)\<bar> \<bar>norm_angle a (theta - hi)\<bar>"
proof -
  from assms(2) obtain theta lo hi where
    p: "port_theta p = Some theta" "port_bounds p = Some (lo, hi)" "\<not> between_angles a theta lo hi"
    by (auto simp: classify_def split: option.splits prod.splits if_splits)
  have "clip_port a p \<in> set (inside (place_node_ports a n nports))"
    using assms by (auto simp: place_node_ports_def Let_def)
  moreover have "port_theta (clip_port a p) = Some (clip_angle a theta lo hi)"
    using p by (simp add: clip_port_def)
  ultimately show ?thesis using p clip_angle_closer[of a theta lo hi] by blast
qed

theorem outside_port_clipped_witness:
  "classify example_angles (assign_vec example_angles 0 port_west) = Outside \<and>
   port_bounds (assign_vec example_angles 0 port_west) = Some (0, pi / 2) \<and>
   port_theta (assign_vec example_angles 0 port_west) = Some pi \<and>
   port_theta (clip_port example_angles (assign_vec example_angles 0 port_west)) = Some (pi / 2) \<and>
   clip_port example_angles (assign_vec example_angles 0 port_west)
     \<in> set (inside (place_node_ports example_angles 0 [port_west]))"
proof -
  have m: "assign_vec example_angles 0 port_west \<in> set (map (assign_vec example_angles 0) [port_west])"
    by simp
  from outside_port_clipped[OF m west_outside] obtain theta lo hi where
    h: "port_theta (assign_vec example_angles 0 port_west) = Some theta"
       "port_bounds (assign_vec example_angles 0 port_west) = Some (lo, hi)"
       "clip_port example_angles (assign_vec example_angles 0 port_west)
          \<in> set (inside (place_node_ports example_angles 0 [port_west]))"
       "port_theta (clip_port example_angles (assign_vec example_angles 0 port_west))
          = Some (clip_angle example_angles theta lo hi)"
    by blast
  from h(1,2)[unfolded west_assigned] have "theta = pi" "lo = 0" "hi = pi / 2"
    by (simp_all add: port_west_def)
  with h west_outside clip_west show ?thesis by simp
qed

text \<open>
  C2 (the code departs from the claim). A port without a direction of its own and with
  one edge, from its node at \<open>(0, 0)\<close> to the node at \<open>(3, 4)\<close>: \<open>place_ports\<close> stores
  the mean unit vector \<open>(3/5, 4/5)\<close> in the field \<open>vec\<close> and leaves \<open>theta\<close> undefined, so
  the port is unplaced and takes the random direction, here \<open>-\<pi>/2\<close>, not the angle of
  the vector. Nothing in \<open>place_ports\<close> computes a direction from \<open>vec\<close>.
\<close>

theorem edge_direction_not_used:
  "port_vec (assign_vec example_angles 0 port_east) = Some (Vector (3 / 5) (4 / 5)) \<and>
   port_theta (assign_vec example_angles 0 port_east) = None \<and>
   classify example_angles (assign_vec example_angles 0 port_east) = Unplaced \<and>
   inside (place_node_ports example_angles 0 [port_east]) = [] \<and>
   map port_theta (unplaced (place_node_ports example_angles 0 [port_east])) = [Some (- pi / 2)]"
proof -
  define P where "P = assign_vec example_angles 0 port_east"
  have v: "vec example_angles 0 \<lparr>pe_source = 0, pe_target = Suc 0\<rparr> = Some (3 / 5, 4 / 5)"
    by (simp add: vec_def norm_vec_def example_angles_def Let_def sqrt_25)
  have a: "P = port_east\<lparr>port_vec := Some (Vector (3 / 5) (4 / 5))\<rparr>"
    unfolding P_def by (simp add: assign_vec_def port_east_def v d3_sum_def)
  have vecP: "port_vec P = Some (Vector (3 / 5) (4 / 5))" and thetaP: "port_theta P = None"
    and boundsP: "port_bounds P = None"
    by (simp_all add: a port_east_def)
  have c: "classify example_angles P = Unplaced"
    by (simp add: classify_def thetaP)
  have n: "normalize_angle (- pi + 1 / 4 * (pi - - pi)) = - pi / 2"
  proof -
    have "- pi + 1 / 4 * (pi - - pi) = - pi / 2" by simp
    moreover have "normalize_angle (- pi / 2) = - pi / 2"
      using pi_gt_zero by (intro normalize_angle_id) linarith+
    ultimately show ?thesis by simp
  qed
  have r: "port_theta (random_port example_angles (random example_angles 0) P) = Some (- pi / 2)"
    using n by (simp add: random_port_def boundsP example_angles_def)
  have "place_node_ports example_angles 0 [port_east] =
      \<lparr>inside = [], unplaced = [random_port example_angles (random example_angles 0) P]\<rparr>"
    using c by (simp add: place_node_ports_def Let_def P_def [symmetric])
  then show ?thesis
    using vecP thetaP c r by (simp add: P_def [symmetric])
qed



text \<open>
  C7 (amended). The claim has the default radius only for an absent distance; the source
  takes it for the distance 0 as well, since \<open>c.distance || baseLength*4\<close> tests the
  distance for truth. With a circle constraint of distance 0 over four nodes and the base
  length 30, the wheel links that the engine is started with carry the radius
  \<open>60 \<surd>2\<close>; the claim's formula gives 0.
\<close>

theorem zero_distance_uses_base_length:
  "(case redraw zero_circle_hooks default_config 0 [node_a, node_b, node_c, node_d] [] chart_d of
     Inl e \<Rightarrow> False
   | Inr (effs, s') \<Rightarrow>
       effs = [EngineStop, EngineStart [1, 2, 3, 0]
                 [WheelLink \<lparr>ie_sourcename = ''a'', ie_targetname = ''b'', ie_distance = 60 * sqrt 2\<rparr> (Some 1) (Some 2),
                  WheelLink \<lparr>ie_sourcename = ''b'', ie_targetname = ''c'', ie_distance = 60 * sqrt 2\<rparr> (Some 2) (Some 3),
                  WheelLink \<lparr>ie_sourcename = ''c'', ie_targetname = ''d'', ie_distance = 60 * sqrt 2\<rparr> (Some 3) (Some 0),
                  WheelLink \<lparr>ie_sourcename = ''d'', ie_targetname = ''a'', ie_distance = 60 * sqrt 2\<rparr> (Some 0) (Some 1)]
                 []]) \<and>
   spec_ring_radius default_config (Some 0) 4 = 0 \<and>
   ring_radius default_config (Some 0) 4 \<noteq> Some (spec_ring_radius default_config (Some 0) 4)"
proof -
  have 1: "case redraw zero_circle_hooks default_config 0 [node_a, node_b, node_c, node_d] [] chart_d of
     Inl e \<Rightarrow> False
   | Inr (effs, s') \<Rightarrow>
       effs = [EngineStop, EngineStart [1, 2, 3, 0]
                 [WheelLink \<lparr>ie_sourcename = ''a'', ie_targetname = ''b'', ie_distance = 60 * sqrt 2\<rparr> (Some 1) (Some 2),
                  WheelLink \<lparr>ie_sourcename = ''b'', ie_targetname = ''c'', ie_distance = 60 * sqrt 2\<rparr> (Some 2) (Some 3),
                  WheelLink \<lparr>ie_sourcename = ''c'', ie_targetname = ''d'', ie_distance = 60 * sqrt 2\<rparr> (Some 3) (Some 0),
                  WheelLink \<lparr>ie_sourcename = ''d'', ie_targetname = ''a'', ie_distance = 60 * sqrt 2\<rparr> (Some 0) (Some 1)]
                 []]"
    using ring_radius_four[unfolded default_config_def]
    by (simp add: eval_all zero_circle_hooks_def rim_def four)
  have 2: "spec_ring_radius default_config (Some 0) 4 = 0"
    by (simp add: spec_ring_radius_def)
  have 3: "ring_radius default_config (Some 0) 4 \<noteq> Some (spec_ring_radius default_config (Some 0) 4)"
    unfolding 2 ring_radius_four by simp
  from 1 2 3 show ?thesis by (intro conjI)
qed

text \<open>
  C7 as amended. A redraw that starts the engine, and what \<open>constrain\<close> returned in it.
  The engine is started with the wrappers of \<open>nodes1\<close>. No circle constraint is in its
  list of constraints, which has one element for each constraint that is neither circle
  nor ordering and then the gap constraints of the ordering constraints: nothing in it
  comes from a circle constraint. Its links are the layout edges followed by one list of
  wheel links for each circle constraint, in their order. For a circle constraint over
  the keys \<open>ks\<close> with the distance \<open>d\<close> these are the links that \<open>wheel_edges\<close> returns,
  each with the wrappers of its two names as source and target, when it is called with
  the function that names the node at a position of \<open>nodes1\<close>, the indices of the
  wrappers of \<open>ks\<close>, and the radius; with two keys or more the radius is
  \<open>(d, or 4 \<times> baseLength when the distance is absent or 0) / (2 sin(\<pi> / length ks))\<close>,
  and for four keys, no distance and the base length 30 it is within 0.01 of 84.85.
\<close>

theorem circle_constraint_translated:
  assumes "reconcile cfg nodes edges (pre_redraw cfg s) = ((nodes1, edges1), s1)"
      and "redraw h cfg now nodes edges s = Inr (effs, s')"
      and "EngineStart ns ls cons \<in> set effs"
      and "constrain h nodes1 edges1
             (s'\<lparr>startTime := startTime s, end_listener := end_listener (pre_redraw cfg s)\<rparr>) = cs0"
  shows "ns = nodes1 \<and> (\<forall>is d. Circle is d \<notin> set cons) \<and>
         (\<exists>rest gss. cons = rest @ concat gss \<and>
            length rest = length (filter (\<lambda>c. \<not> is_circle c \<and> \<not> is_ordering c) cs0) \<and>
            length gss = length (filter is_ordering cs0)) \<and>
         (\<exists>wss. ls = map EdgeLink (filter (\<lambda>e. \<exists>kv. edge_orig (edge_heap s' e) = Some kv \<and>
                                                  edgeIsLayoutAccessor cfg kv) edges1) @ concat wss \<and>
            length wss = length (filter is_circle cs0) \<and>
            (\<forall>j ks d. j < length wss \<and> filter is_circle cs0 ! j = Circle ks d \<longrightarrow>
               (\<exists>is nf R. length is = length ks \<and>
                  (\<forall>i<length ks. \<exists>r. nodes_map s' (ks ! i) = Some r \<and>
                       node_index (node_heap s' r) = Some (is ! i)) \<and>
                  (\<forall>i<length nodes1. \<exists>v. node_orig (node_heap s' (nodes1 ! i)) = Some v \<and>
                       nf i = nodeKeyAccessor cfg v) \<and>
                  (2 \<le> length ks \<longrightarrow>
                     R = Some ((case d of None \<Rightarrow> 4 * baseLength cfg
                                        | Some x \<Rightarrow> if x = 0 then 4 * baseLength cfg else x) /
                               (2 * sin (pi / real (length ks))))) \<and>
                  (length ks = 4 \<and> d = None \<and> baseLength cfg = 30 \<longrightarrow>
                     (\<exists>x. R = Some x \<and> \<bar>x - 8485 / 100\<bar> < 1 / 100)) \<and>
                  wss ! j = map (\<lambda>e. WheelLink e (nodes_map s' (ie_sourcename e))
                                                 (nodes_map s' (ie_targetname e)))
                              (wheel_edges h nf is R))))"
proof -
  let ?t = "s'\<lparr>startTime := startTime s, end_listener := end_listener (pre_redraw cfg s)\<rparr>"
  have tm: "nodes_map ?t = nodes_map s'" and th: "node_heap ?t = node_heap s'"
    and te: "edge_heap ?t = edge_heap s'" by simp_all
  from redraw_engine_start[OF assms(2,1,3)]
  have n: "ns = nodes1" and ei: "engine_input h cfg nodes1 edges1 ?t = Inr (ls, cons)"
    and nm: "nodes_map s' = nodes_map s1" and nh: "node_heap s' = node_heap s1" by simp_all
  from engine_input_Inr[OF ei] assms(4) obtain tcs gaps where
    t: "translate_constraints ?t cs0 = Inr tcs"
       "collect (map (ordering_gaps ?t) (filter is_ordering tcs)) = Inr gaps"
       "ls = map EdgeLink (filter (is_layout cfg ?t) edges1) @
             concat (map (wheel h cfg nodes1 ?t) (filter is_circle tcs))"
       "cons = filter (\<lambda>c. \<not> is_circle c \<and> \<not> is_ordering c) tcs @ concat gaps"
    by auto
  note tf = translated_filters[OF t(1)]
  let ?wss = "map (wheel h cfg nodes1 ?t) (filter is_circle tcs)"
  have nc: "\<not> is_circle c" if "c \<in> set cons" for c
    using that t(4) collect_gaps[OF t(2)] by auto
  have 1: "\<forall>is d. Circle is d \<notin> set cons"
  proof (intro allI notI)
    fix "is" d assume "Circle is d \<in> set cons"
    from nc[OF this] show False by simp
  qed
  have lg: "length gaps = length (filter is_ordering cs0)"
    using list_all2_lengthD[OF collect_all2[OF t(2)]] list_all2_lengthD[OF tf(1)] by simp
  have dc: "\<exists>rest gss. cons = rest @ concat gss \<and>
            length rest = length (filter (\<lambda>c. \<not> is_circle c \<and> \<not> is_ordering c) cs0) \<and>
            length gss = length (filter is_ordering cs0)"
    by (rule exI[of _ "filter (\<lambda>c. \<not> is_circle c \<and> \<not> is_ordering c) tcs"], rule exI[of _ gaps])
       (use t(4) tf(3) lg in simp)
  have le: "filter (is_layout cfg ?t) edges1 =
            filter (\<lambda>e. \<exists>kv. edge_orig (edge_heap s' e) = Some kv \<and> edgeIsLayoutAccessor cfg kv) edges1"
    by (rule filter_cong[OF refl]) (simp add: is_layout_orig)
  have lw: "length ?wss = length (filter is_circle cs0)"
    using list_all2_lengthD[OF tf(2)] by simp
  have names: "\<forall>i<length nodes1. \<exists>v. node_orig (node_heap s' (nodes1 ! i)) = Some v \<and>
                 namef cfg nodes1 ?t i = nodeKeyAccessor cfg v"
  proof (intro allI impI)
    fix i assume i: "i < length nodes1"
    from reconcile_names[OF assms(1) i] obtain v where
      "node_orig (node_heap s1 (nodes1 ! i)) = Some v" by blast
    then show "\<exists>v. node_orig (node_heap s' (nodes1 ! i)) = Some v \<and>
                 namef cfg nodes1 ?t i = nodeKeyAccessor cfg v"
      using i by (simp add: namef_def nh)
  qed
  have 2: "\<forall>j ks d. j < length ?wss \<and> filter is_circle cs0 ! j = Circle ks d \<longrightarrow>
            (\<exists>is nf R. length is = length ks \<and>
                  (\<forall>i<length ks. \<exists>r. nodes_map s' (ks ! i) = Some r \<and>
                       node_index (node_heap s' r) = Some (is ! i)) \<and>
                  (\<forall>i<length nodes1. \<exists>v. node_orig (node_heap s' (nodes1 ! i)) = Some v \<and>
                       nf i = nodeKeyAccessor cfg v) \<and>
                  (2 \<le> length ks \<longrightarrow>
                     R = Some ((case d of None \<Rightarrow> 4 * baseLength cfg
                                        | Some x \<Rightarrow> if x = 0 then 4 * baseLength cfg else x) /
                               (2 * sin (pi / real (length ks))))) \<and>
                  (length ks = 4 \<and> d = None \<and> baseLength cfg = 30 \<longrightarrow>
                     (\<exists>x. R = Some x \<and> \<bar>x - 8485 / 100\<bar> < 1 / 100)) \<and>
                  ?wss ! j = map (\<lambda>e. WheelLink e (nodes_map s' (ie_sourcename e))
                                                 (nodes_map s' (ie_targetname e)))
                              (wheel_edges h nf is R))"
  proof (intro allI impI, elim conjE)
    fix j ks d
    assume j: "j < length ?wss" and c: "filter is_circle cs0 ! j = Circle ks d"
    from j lw have j0: "j < length (filter is_circle cs0)" by simp
    from list_all2_nthD[OF tf(2) j0] c
    have "translate_constraint ?t (Circle ks d) = Inr (filter is_circle tcs ! j)" by simp
    from translate_circle_indices[OF this] obtain "is" where
      i: "filter is_circle tcs ! j = Circle is d" "length is = length ks"
         "\<forall>i<length ks. \<exists>r. nodes_map s' (ks ! i) = Some r \<and>
               node_index (node_heap s' r) = Some (is ! i)"
      unfolding tm th by blast
    from j have jt: "j < length (filter is_circle tcs)" by simp
    have w: "?wss ! j = map (\<lambda>e. WheelLink e (nodes_map s' (ie_sourcename e))
                                                 (nodes_map s' (ie_targetname e)))
                (wheel_edges h (namef cfg nodes1 ?t) is (ring_radius cfg d (length ks)))"
      using jt i(1,2) by simp
    have r1: "2 \<le> length ks \<longrightarrow>
                     ring_radius cfg d (length ks) =
                       Some ((case d of None \<Rightarrow> 4 * baseLength cfg
                                        | Some x \<Rightarrow> if x = 0 then 4 * baseLength cfg else x) /
                               (2 * sin (pi / real (length ks))))"
      using ring_radius_formula by blast
    have r2: "length ks = 4 \<and> d = None \<and> baseLength cfg = 30 \<longrightarrow>
                     (\<exists>x. ring_radius cfg d (length ks) = Some x \<and> \<bar>x - 8485 / 100\<bar> < 1 / 100)"
      using ring_radius_approx by auto
    show "\<exists>is nf R. length is = length ks \<and>
                  (\<forall>i<length ks. \<exists>r. nodes_map s' (ks ! i) = Some r \<and>
                       node_index (node_heap s' r) = Some (is ! i)) \<and>
                  (\<forall>i<length nodes1. \<exists>v. node_orig (node_heap s' (nodes1 ! i)) = Some v \<and>
                       nf i = nodeKeyAccessor cfg v) \<and>
                  (2 \<le> length ks \<longrightarrow>
                     R = Some ((case d of None \<Rightarrow> 4 * baseLength cfg
                                        | Some x \<Rightarrow> if x = 0 then 4 * baseLength cfg else x) /
                               (2 * sin (pi / real (length ks))))) \<and>
                  (length ks = 4 \<and> d = None \<and> baseLength cfg = 30 \<longrightarrow>
                     (\<exists>x. R = Some x \<and> \<bar>x - 8485 / 100\<bar> < 1 / 100)) \<and>
                  ?wss ! j = map (\<lambda>e. WheelLink e (nodes_map s' (ie_sourcename e))
                                                 (nodes_map s' (ie_targetname e)))
                              (wheel_edges h nf is R)"
      by (rule exI[of _ "is"], rule exI[of _ "namef cfg nodes1 ?t"],
          rule exI[of _ "ring_radius cfg d (length ks)"])
         (rule conjI[OF i(2) conjI[OF i(3) conjI[OF names conjI[OF r1 conjI[OF r2 w]]]]])
  qed
  have 3: "ls = map EdgeLink (filter (\<lambda>e. \<exists>kv. edge_orig (edge_heap s' e) = Some kv \<and>
                                                  edgeIsLayoutAccessor cfg kv) edges1) @ concat ?wss"
    by (simp only: t(3) le)
  have "\<exists>wss. ls = map EdgeLink (filter (\<lambda>e. \<exists>kv. edge_orig (edge_heap s' e) = Some kv \<and>
                                                  edgeIsLayoutAccessor cfg kv) edges1) @ concat wss \<and>
            length wss = length (filter is_circle cs0) \<and>
            (\<forall>j ks d. j < length wss \<and> filter is_circle cs0 ! j = Circle ks d \<longrightarrow>
               (\<exists>is nf R. length is = length ks \<and>
                  (\<forall>i<length ks. \<exists>r. nodes_map s' (ks ! i) = Some r \<and>
                       node_index (node_heap s' r) = Some (is ! i)) \<and>
                  (\<forall>i<length nodes1. \<exists>v. node_orig (node_heap s' (nodes1 ! i)) = Some v \<and>
                       nf i = nodeKeyAccessor cfg v) \<and>
                  (2 \<le> length ks \<longrightarrow>
                     R = Some ((case d of None \<Rightarrow> 4 * baseLength cfg
                                        | Some x \<Rightarrow> if x = 0 then 4 * baseLength cfg else x) /
                               (2 * sin (pi / real (length ks))))) \<and>
                  (length ks = 4 \<and> d = None \<and> baseLength cfg = 30 \<longrightarrow>
                     (\<exists>x. R = Some x \<and> \<bar>x - 8485 / 100\<bar> < 1 / 100)) \<and>
                  wss ! j = map (\<lambda>e. WheelLink e (nodes_map s' (ie_sourcename e))
                                                 (nodes_map s' (ie_targetname e)))
                              (wheel_edges h nf is R)))"
    by (rule exI[of _ ?wss]) (rule conjI[OF 3 conjI[OF lw 2]])
  with n 1 dc show ?thesis by (intro conjI)
qed

theorem circle_constraint_translated_witness:
  "case redraw circle_hooks default_config 0 [node_a, node_b, node_c, node_d] [edge_ab, edge_ab_loose] chart_d of
     Inl e \<Rightarrow> False
   | Inr (effs, s') \<Rightarrow>
       effs = [EngineStop, EngineStart [1, 2, 3, 0]
                 [EdgeLink 0,
                  WheelLink \<lparr>ie_sourcename = ''a'', ie_targetname = ''b'', ie_distance = 60 * sqrt 2\<rparr> (Some 1) (Some 2),
                  WheelLink \<lparr>ie_sourcename = ''b'', ie_targetname = ''c'', ie_distance = 60 * sqrt 2\<rparr> (Some 2) (Some 3),
                  WheelLink \<lparr>ie_sourcename = ''c'', ie_targetname = ''d'', ie_distance = 60 * sqrt 2\<rparr> (Some 3) (Some 0),
                  WheelLink \<lparr>ie_sourcename = ''d'', ie_targetname = ''a'', ie_distance = 60 * sqrt 2\<rparr> (Some 0) (Some 1)]
                 []] \<and>
       60 * sqrt 2 = 30 * 4 / (2 * sin (pi / 4)) \<and>
       \<bar>30 * 4 / (2 * sin (pi / 4)) - 8485 / 100\<bar> < 1 / 100"
proof -
  let ?ls = "[EdgeLink 0,
                  WheelLink \<lparr>ie_sourcename = ''a'', ie_targetname = ''b'', ie_distance = 60 * sqrt 2\<rparr> (Some 1) (Some 2),
                  WheelLink \<lparr>ie_sourcename = ''b'', ie_targetname = ''c'', ie_distance = 60 * sqrt 2\<rparr> (Some 2) (Some 3),
                  WheelLink \<lparr>ie_sourcename = ''c'', ie_targetname = ''d'', ie_distance = 60 * sqrt 2\<rparr> (Some 3) (Some 0),
                  WheelLink \<lparr>ie_sourcename = ''d'', ie_targetname = ''a'', ie_distance = 60 * sqrt 2\<rparr> (Some 0) (Some 1)]"
  let ?effs = "[EngineStop, EngineStart [1, 2, 3, 0] ?ls []]"
  let ?cs0 = "[Circle [''a'', ''b'', ''c'', ''d''] None] :: key constraint list"
  from circle_redraw_eval obtain s' where
    rd: "redraw circle_hooks default_config 0 [node_a, node_b, node_c, node_d] [edge_ab, edge_ab_loose] chart_d =
           Inr (?effs, s')"
    by (auto split: sum.splits)
  have rec: "reconcile default_config [node_a, node_b, node_c, node_d] [edge_ab, edge_ab_loose]
       (pre_redraw default_config chart_d) =
      (([1, 2, 3, 0], [0, 1]),
       snd (reconcile default_config [node_a, node_b, node_c, node_d] [edge_ab, edge_ab_loose]
              (pre_redraw default_config chart_d)))"
    using abcd_edges1 by (simp add: prod_eq_iff)
  have st: "EngineStart [1, 2, 3, 0] ?ls [] \<in> set ?effs" by simp
  have c0: "constrain circle_hooks [1, 2, 3, 0] [0, 1]
      (s'\<lparr>startTime := startTime chart_d, end_listener := end_listener (pre_redraw default_config chart_d)\<rparr>) = ?cs0"
    by (simp add: circle_hooks_def)
  note t = circle_constraint_translated[OF rec rd st c0]
  have a: "\<bar>30 * 4 / (2 * sin (pi / 4)) - 8485 / 100\<bar> < 1 / 100"
    using t[THEN conjunct2, THEN conjunct2, THEN conjunct2]
    apply (elim exE conjE)
    apply (erule allE[of _ 0], erule allE[of _ "[''a'', ''b'', ''c'', ''d'']"], erule allE[of _ None])
    apply (auto simp: default_config_def)
    done
  have "sqrt 2 * sqrt 2 = 2" by simp
  then have "120 / sqrt 2 = 60 * sqrt 2" by (simp add: field_simps)
  then have b: "60 * sqrt 2 = 30 * 4 / (2 * sin (pi / 4))" by (simp add: sin_45)
  from rd a b show ?thesis by simp
qed

text \<open>
  C5. With \<open>parallelEdgeOffset\<close> set and the keys of the edge records distinct, the
  marking of the parallel edges never fails, and when the redraw has completed: among
  the edges of \<open>edges1\<close> that are counted in the same cell \<open>p\<close>, listed in the order of
  \<open>edges1\<close>, the values of \<open>parallel\<close> are \<open>0, 1, ..., N - 1\<close>; the value of the
  \<open>i\<close>-th edge is the number of edges before it that are counted in its cell; the cell of
  an edge is the smaller and the larger of the indices of its endpoints, so two edges
  share a cell exactly when they join the same unordered pair of indices, whichever end
  is the source. The witness is the claim's example: the edges from \<open>a\<close> to \<open>b\<close>, from
  \<open>a\<close> to \<open>b\<close> and from \<open>b\<close> to \<open>c\<close> get 0, 1 and 0.
\<close>

theorem parallel_edges_numbered:
  assumes "reconcile cfg nodes edges (pre_redraw cfg s) = ((nodes1, edges1), s1)"
      and "distinct (map (edgeKeyAccessor cfg) edges)" and "parallelEdgeOffset cfg \<noteq> 0"
  shows "(\<exists>s3. mark_parallel edges1 (em_init (length nodes1)) (snd (snapshot cfg nodes1 edges1 s1)) = Inr s3) \<and>
         (\<forall>effs s'. redraw h cfg now nodes edges s = Inr (effs, s') \<longrightarrow>
            (\<forall>p. map (\<lambda>e. edge_parallel (edge_heap s' e)) (filter (\<lambda>e. pair_key s' e = Some p) edges1) =
                 map Some [0..<length (filter (\<lambda>e. pair_key s' e = Some p) edges1)]) \<and>
            (\<forall>i<length edges1. edge_parallel (edge_heap s' (edges1 ! i)) =
                 Some (length (filter (\<lambda>e. pair_key s' e = pair_key s' (edges1 ! i)) (take i edges1)))) \<and>
            (\<forall>e\<in>set edges1. \<exists>i j. endpoint_indices s' e = Some (i, j) \<and>
                 pair_key s' e = Some (min i j, max i j))) \<and>
         (\<forall>t e e' i j i' j'. endpoint_indices t e = Some (i, j) \<and> endpoint_indices t e' = Some (i', j') \<longrightarrow>
            (pair_key t e = pair_key t e') = ({i, j} = {i', j'}))"
proof (intro conjI allI impI ballI)
  let ?s2 = "snd (snapshot cfg nodes1 edges1 s1)"
  have ends: "\<exists>i j. endpoint_indices ?s2 e = Some (i, j) \<and> i < length nodes1 \<and> j < length nodes1"
    if "e \<in> set edges1" for e
    using reconcile_endpoints[OF assms(1) that] by simp
  show "\<exists>s3. mark_parallel edges1 (em_init (length nodes1)) ?s2 = Inr s3"
    using ends by (intro mark_parallel_total[OF em_ok_init]) blast
  have dist: "distinct edges1" by (rule reconcile_edges_distinct[OF assms(1,2)])
  {
    fix effs s' assume r: "redraw h cfg now nodes edges s = Inr (effs, s')"
    from redraw_marked[OF r assms(1,3)] obtain s3 where
      m: "mark_parallel edges1 (em_init (length nodes1)) ?s2 = Inr s3"
      and hp: "edge_heap s' = edge_heap s3" "node_heap s' = node_heap s3" by blast
    have ei: "endpoint_indices s' e = endpoint_indices ?s2 e" for e
      using endpoint_indices_heaps[OF hp] mark_parallel_endpoints[OF m] by simp
    then have pk: "pair_key s' e = pair_key ?s2 e" for e by (simp add: pair_key_def)
    {
      fix p
      show "map (\<lambda>e. edge_parallel (edge_heap s' e)) (filter (\<lambda>e. pair_key s' e = Some p) edges1) =
                 map Some [0..<length (filter (\<lambda>e. pair_key s' e = Some p) edges1)]"
        using mark_parallel_classes[OF m dist, of p] by (simp add: pk hp)
    }
    {
      fix i assume i: "i < length edges1"
      from mark_parallel_counts[OF m dist i em_ok_init] obtain a b where
        ab: "pair_key ?s2 (edges1 ! i) = Some (a, b)" "a < length nodes1" "b < length nodes1"
            "edge_parallel (edge_heap s3 (edges1 ! i)) =
               Some (em_init (length nodes1) ! a ! b +
                     length (filter (\<lambda>e. pair_key ?s2 e = Some (a, b)) (take i edges1)))"
        by blast
      then have "em_init (length nodes1) ! a ! b = 0" by (simp add: em_init_def)
      with ab show "edge_parallel (edge_heap s' (edges1 ! i)) =
                 Some (length (filter (\<lambda>e. pair_key s' e = pair_key s' (edges1 ! i)) (take i edges1)))"
        by (simp add: pk hp)
    }
    {
      fix e assume "e \<in> set edges1"
      from ends[OF this] show "\<exists>i j. endpoint_indices s' e = Some (i, j) \<and>
                 pair_key s' e = Some (min i j, max i j)"
        by (auto simp: pair_key_def ei)
    }
  }
  {
    fix t e e' i j i' j'
    assume "endpoint_indices t e = Some (i, j) \<and> endpoint_indices t e' = Some (i', j')"
    then show "(pair_key t e = pair_key t e') = ({i, j} = {i', j'})"
      using unordered_pair[of i j i' j'] by (simp add: pair_key_def)
  }
qed

theorem parallel_edges_numbered_witness:
  "case redraw no_hooks default_config 0 [node_a, node_b, node_c] [edge_ab, edge_ab2, edge_bc]
          initial_chart of
     Inl e \<Rightarrow> False
   | Inr (effs, s') \<Rightarrow>
       map (pair_key s') [0, 1, 2] = [Some (0, 1), Some (0, 1), Some (1, 2)] \<and>
       map (\<lambda>e. edge_parallel (edge_heap s' e)) [0, 1, 2] = [Some 0, Some 1, Some 0]"
proof -
  have nc: "\<And>ns es t. constrain no_hooks ns es t = []" by (simp add: no_hooks_def)
  obtain effs s' where r: "redraw no_hooks default_config 0 [node_a, node_b, node_c]
      [edge_ab, edge_ab2, edge_bc] initial_chart = Inr (effs, s')"
    using redraw_total[OF nc] by blast
  have d: "distinct (map (edgeKeyAccessor default_config) [edge_ab, edge_ab2, edge_bc])"
    by (simp add: default_config_def edge_ab_def edge_ab2_def edge_bc_def)
  have o: "parallelEdgeOffset default_config \<noteq> 0" by (simp add: default_config_def)
  note t = parallel_edges_numbered[OF abc_reconciled d o, where h = no_hooks and now = 0]
  from t r have cls: "\<And>p. map (\<lambda>e. edge_parallel (edge_heap s' e)) (filter (\<lambda>e. pair_key s' e = Some p) [0, 1, 2]) =
                 map Some [0..<length (filter (\<lambda>e. pair_key s' e = Some p) [0, 1, 2])]"
    by blast
  from t r have "\<forall>e\<in>set [0, 1, 2]. \<exists>i j. endpoint_indices s' e = Some (i, j) \<and>
                 pair_key s' e = Some (min i j, max i j)" by blast
  moreover have "endpoint_indices s' e = endpoint_indices chart_abc e" for e
  proof -
    from redraw_marked[OF r abc_reconciled o] obtain s3 where
      m: "mark_parallel [0, 1, 2] (em_init (length [0::nat, 1, 2]))
            (snd (snapshot default_config [0, 1, 2] [0, 1, 2] chart_abc)) = Inr s3"
      and hp: "edge_heap s' = edge_heap s3" "node_heap s' = node_heap s3" by blast
    show ?thesis
      using endpoint_indices_heaps[OF hp] mark_parallel_endpoints[OF m] by simp
  qed
  ultimately have pk: "pair_key s' 0 = Some (0, 1)" "pair_key s' (Suc 0) = Some (0, 1)"
    "pair_key s' 2 = Some (1, 2)"
    by (simp_all add: abc_endpoints pair_key_def)
  from cls[of "(0, 1)"] cls[of "(1, 2)"] pk
  have "map (\<lambda>e. edge_parallel (edge_heap s' e)) [0, 1, 2] = [Some 0, Some 1, Some 0]"
    by (simp add: upt_rec)
  with pk r show ?thesis by simp
qed

text \<open>
  C4 (the code departs from the claim). A record for which \<open>nodeFixedAccessor\<close> returns
  the coordinate \<open>(10, 20)\<close>, without \<open>x\<close> and \<open>y\<close> of its own: the first redraw starts
  the engine, the engine puts the node at \<open>(100, 100)\<close>, and the second redraw of the
  same records skips the layout (it stops the engine and dispatches \<open>end\<close>, nothing
  else). The node is not where it was: \<open>wrap_node\<close>, which runs before the test for
  unchanged records, has overwritten the position with the record's undefined \<open>x\<close> and
  \<open>y\<close>, where it would have to take the coordinate that the accessor returned.
\<close>

theorem skip_resets_fixed_node:
  "case redraw no_hooks fixing_config 0 [node_pin] [] initial_chart of
     Inl e \<Rightarrow> False
   | Inr (effs1, s1) \<Rightarrow>
       (case redraw no_hooks fixing_config 1 [node_pin] [] (engine_moves 0 100 100 s1) of
          Inl e \<Rightarrow> False
        | Inr (effs2, s2) \<Rightarrow>
            effs2 = [EngineStop, DispatchEnd] \<and>
            node_x (node_heap (engine_moves 0 100 100 s1) 0) = Some 100 \<and>
            node_x (node_heap s2 0) = None)"
  by (simp add: eval_more)

text \<open>
  C3 (the code departs from the claim). A chart with a time limit of 500 milliseconds; the
  redraw starts the engine at time 0 and dispatches nothing itself. At the tick at time
  600 the tick listener stops the engine and dispatches \<open>end\<close>. Stopping the engine makes
  it finish: it fires its own \<open>end\<close> event, and the listener of that event dispatches
  \<open>end\<close> again. The cycle has dispatched \<open>end\<close> twice.
\<close>

theorem end_dispatched_twice_on_cancel:
  "case redraw no_hooks limited_config 0 [node_a, node_b] [edge_ab] initial_chart of
     Inl e \<Rightarrow> False
   | Inr (effs, s1) \<Rightarrow>
       dispatched effs = 0 \<and>
       listen limited_config s1 (Tick 600) = [Draw, ConsoleLog ''cancelled'', EngineStop, DispatchEnd] \<and>
       listen limited_config s1 End = [DispatchEnd] \<and>
       dispatched (effs @ deliver limited_config s1 [Tick 100, Tick 600, End]) = 2"
  by (simp add: eval_more deliver_def on_tick_def on_end_def dispatched_def)

end
